theory Spec2Isabelle
  imports Complex_Main
begin

section \<open>Numbers of the source language\<close>

text \<open>
  The processors compute on JavaScript numbers. A number is modelled as a real or one of
  the three special values of IEEE arithmetic. The sign of zero is not modelled: a zero
  divisor is taken as \<open>+0\<close>. The arithmetic on samples is exact (the rounding of doubles
  and of the 32-bit samples of a channel is not modelled); rounding is modelled where
  it decides what is computed: the power \<open>Math.pow(2, e)\<close>, which leaves the range of
  the doubles, and the feedback of the delay, which is compared with a threshold to end a
  loop. A read of an array outside its range gives \<open>undefined\<close>, which every use in
  the source turns into \<open>NaN\<close> (arithmetic, or a store into a channel).
\<close>

datatype jsnum = Fin real | PosInf | NegInf | NaN

instantiation jsnum :: "{plus, minus, uminus, times, inverse, ord}"
begin

fun uminus_jsnum :: "jsnum \<Rightarrow> jsnum" where
  "uminus_jsnum (Fin a) = Fin (- a)"
| "uminus_jsnum PosInf = NegInf"
| "uminus_jsnum NegInf = PosInf"
| "uminus_jsnum NaN = NaN"

fun plus_jsnum :: "jsnum \<Rightarrow> jsnum \<Rightarrow> jsnum" where
  "plus_jsnum (Fin a) (Fin b) = Fin (a + b)"
| "plus_jsnum NaN y = NaN"
| "plus_jsnum x NaN = NaN"
| "plus_jsnum PosInf NegInf = NaN"
| "plus_jsnum NegInf PosInf = NaN"
| "plus_jsnum PosInf y = PosInf"
| "plus_jsnum x PosInf = PosInf"
| "plus_jsnum NegInf y = NegInf"
| "plus_jsnum x NegInf = NegInf"

definition minus_jsnum :: "jsnum \<Rightarrow> jsnum \<Rightarrow> jsnum" where
  "minus_jsnum x y = x + (- y)"

fun times_jsnum :: "jsnum \<Rightarrow> jsnum \<Rightarrow> jsnum" where
  "times_jsnum (Fin a) (Fin b) = Fin (a * b)"
| "times_jsnum NaN y = NaN"
| "times_jsnum x NaN = NaN"
| "times_jsnum (Fin a) PosInf = (if a = 0 then NaN else if 0 < a then PosInf else NegInf)"
| "times_jsnum (Fin a) NegInf = (if a = 0 then NaN else if 0 < a then NegInf else PosInf)"
| "times_jsnum PosInf (Fin b) = (if b = 0 then NaN else if 0 < b then PosInf else NegInf)"
| "times_jsnum NegInf (Fin b) = (if b = 0 then NaN else if 0 < b then NegInf else PosInf)"
| "times_jsnum PosInf PosInf = PosInf"
| "times_jsnum PosInf NegInf = NegInf"
| "times_jsnum NegInf PosInf = NegInf"
| "times_jsnum NegInf NegInf = PosInf"

fun divide_jsnum :: "jsnum \<Rightarrow> jsnum \<Rightarrow> jsnum" where
  "divide_jsnum (Fin a) (Fin b) =
     (if b = 0 then (if a = 0 then NaN else if 0 < a then PosInf else NegInf)
      else Fin (a / b))"
| "divide_jsnum NaN y = NaN"
| "divide_jsnum x NaN = NaN"
| "divide_jsnum (Fin a) PosInf = Fin 0"
| "divide_jsnum (Fin a) NegInf = Fin 0"
| "divide_jsnum PosInf (Fin b) = (if 0 \<le> b then PosInf else NegInf)"
| "divide_jsnum NegInf (Fin b) = (if 0 \<le> b then NegInf else PosInf)"
| "divide_jsnum PosInf PosInf = NaN"
| "divide_jsnum PosInf NegInf = NaN"
| "divide_jsnum NegInf PosInf = NaN"
| "divide_jsnum NegInf NegInf = NaN"

fun inverse_jsnum :: "jsnum \<Rightarrow> jsnum" where
  "inverse_jsnum (Fin b) = (if b = 0 then PosInf else Fin (1 / b))"
| "inverse_jsnum PosInf = Fin 0"
| "inverse_jsnum NegInf = Fin 0"
| "inverse_jsnum NaN = NaN"

fun less_jsnum :: "jsnum \<Rightarrow> jsnum \<Rightarrow> bool" where
  "less_jsnum (Fin a) (Fin b) = (a < b)"
| "less_jsnum NaN y = False"
| "less_jsnum x NaN = False"
| "less_jsnum x NegInf = False"
| "less_jsnum PosInf y = False"
| "less_jsnum NegInf y = True"
| "less_jsnum x PosInf = True"

fun less_eq_jsnum :: "jsnum \<Rightarrow> jsnum \<Rightarrow> bool" where
  "less_eq_jsnum (Fin a) (Fin b) = (a \<le> b)"
| "less_eq_jsnum NaN y = False"
| "less_eq_jsnum x NaN = False"
| "less_eq_jsnum NegInf y = True"
| "less_eq_jsnum x PosInf = True"
| "less_eq_jsnum x NegInf = False"
| "less_eq_jsnum PosInf y = False"

instance ..

end

text \<open>\<open>isFinite\<close>: neither \<open>NaN\<close> nor an infinity.\<close>

fun isFinite :: "jsnum \<Rightarrow> bool" where
  "isFinite (Fin a) = True"
| "isFinite x = False"

fun Math_abs :: "jsnum \<Rightarrow> jsnum" where
  "Math_abs (Fin a) = Fin \<bar>a\<bar>"
| "Math_abs PosInf = PosInf"
| "Math_abs NegInf = PosInf"
| "Math_abs NaN = NaN"

fun Math_floor :: "jsnum \<Rightarrow> jsnum" where
  "Math_floor (Fin a) = Fin (of_int \<lfloor>a\<rfloor>)"
| "Math_floor x = x"

fun Math_sqrt :: "jsnum \<Rightarrow> jsnum" where
  "Math_sqrt (Fin a) = (if a < 0 then NaN else Fin (sqrt a))"
| "Math_sqrt PosInf = PosInf"
| "Math_sqrt x = NaN"

fun Math_tanh :: "jsnum \<Rightarrow> jsnum" where
  "Math_tanh (Fin a) = Fin (tanh a)"
| "Math_tanh PosInf = Fin 1"
| "Math_tanh NegInf = Fin (- 1)"
| "Math_tanh NaN = NaN"

text \<open>\<open>Math.max\<close> and \<open>Math.min\<close> of two numbers: \<open>NaN\<close> if either is.\<close>

fun Math_max :: "jsnum \<Rightarrow> jsnum \<Rightarrow> jsnum" where
  "Math_max NaN y = NaN"
| "Math_max x NaN = NaN"
| "Math_max x y = (if x < y then y else x)"

fun Math_min :: "jsnum \<Rightarrow> jsnum \<Rightarrow> jsnum" where
  "Math_min NaN y = NaN"
| "Math_min x NaN = NaN"
| "Math_min x y = (if y < x then y else x)"

text \<open>
  \<open>Math.pow(2, e)\<close>. The doubles end below \<open>2^1024\<close>: from the exponent \<open>1024\<close> on
  the power is \<open>Infinity\<close>. The least positive double is \<open>2^-1074\<close>: the power is
  rounded to zero from half of it down, the exponent \<open>-1075\<close>. In between, a power of
  two with an integer exponent is a double; with a real exponent it is taken exact.
\<close>

definition Math_pow2_int :: "int \<Rightarrow> jsnum" where
  "Math_pow2_int e =
     (if 1024 \<le> e then PosInf else if e \<le> - 1075 then Fin 0 else Fin (2 powi e))"

definition Math_pow2 :: "real \<Rightarrow> jsnum" where
  "Math_pow2 e =
     (if 1024 \<le> e then PosInf else if e \<le> - 1075 then Fin 0 else Fin (2 powr e))"

subsection \<open>Rounding to a double\<close>

text \<open>
  A double has a significand of \<open>53\<close> bits: a real \<open>x\<close> with
  \<open>2^e \<le> |x| < 2^(e + 1)\<close> lies between two neighbouring multiples of \<open>2^(e - 52)\<close>
  (of \<open>2^-1074\<close> below the normal range), and is rounded to the nearer one, to the
  even one of the two in a tie. The result is a real: overflow to an infinity is not
  modelled here. It is used for the feedback of the delay, which stays between \<open>0\<close>
  and \<open>1\<close> for a feedback amount in that range.
\<close>

definition round_ties_even :: "real \<Rightarrow> int" where
  "round_ties_even m =
     (let f = \<lfloor>m\<rfloor>; d = m - of_int f
      in if d < 1 / 2 then f else if 1 / 2 < d then f + 1 else if even f then f else f + 1)"

definition quantum_exp :: "real \<Rightarrow> int" where
  "quantum_exp x = max (\<lfloor>log 2 \<bar>x\<bar>\<rfloor> - 52) (- 1074)"

definition round_double :: "real \<Rightarrow> real" where
  "round_double x =
     (if x = 0 then 0
      else of_int (round_ties_even (x / 2 powi quantum_exp x)) * 2 powi quantum_exp x)"

section \<open>Typed arrays and loops\<close>

text \<open>
  A channel is a \<open>Float32Array\<close>: a list of numbers of fixed length. A store outside
  the range is ignored, as \<open>xs[i := v]\<close> is; a read outside the range is \<open>undefined\<close>.
\<close>

definition get :: "jsnum list \<Rightarrow> nat \<Rightarrow> jsnum" where
  "get xs i = (if i < length xs then xs ! i else NaN)"

text \<open>
  An element read at a computed position: \<open>undefined\<close> unless the position is an index
  of the array.
\<close>

fun get_js :: "jsnum list \<Rightarrow> jsnum \<Rightarrow> jsnum" where
  "get_js xs (Fin r) =
     (if 0 \<le> r \<and> r = of_int \<lfloor>r\<rfloor> \<and> nat \<lfloor>r\<rfloor> < length xs then xs ! nat \<lfloor>r\<rfloor> else NaN)"
| "get_js xs x = NaN"

text \<open>\<open>for (let i = a; i < b; i++) body\<close>, for a body that neither changes \<open>i\<close> nor breaks.\<close>

definition for_range :: "nat \<Rightarrow> nat \<Rightarrow> (nat \<Rightarrow> 's \<Rightarrow> 's) \<Rightarrow> 's \<Rightarrow> 's" where
  "for_range a b body s = fold body [a..<b] s"

section \<open>Audio buffers\<close>

record AudioBuffer =
  buf_length :: nat
  sampleRate :: real
  channelData :: "jsnum list list"

definition numberOfChannels :: "AudioBuffer \<Rightarrow> nat" where
  "numberOfChannels b = length (channelData b)"

definition buf_duration :: "AudioBuffer \<Rightarrow> real" where
  "buf_duration b = real (buf_length b) / sampleRate b"

text \<open>
  The invariant of a buffer of the platform: at least one channel, at least one frame, a
  positive rate, every channel of the buffer's length.
\<close>

definition wf_buffer :: "AudioBuffer \<Rightarrow> bool" where
  "wf_buffer b \<longleftrightarrow>
     0 < length (channelData b) \<and> 0 < buf_length b \<and> 0 < sampleRate b \<and>
     list_all (\<lambda>c. length c = buf_length b) (channelData b)"

datatype error = NoSampleLoaded | NotSupportedError | IndexSizeError

text \<open>
  \<open>audioContext.createBuffer\<close> of the platform: a buffer of silence, or
  \<open>NotSupportedError\<close> when the channel count or the length is zero or the rate is not
  positive. The platform's upper limits are not modelled.
\<close>

definition createBuffer :: "nat \<Rightarrow> nat \<Rightarrow> real \<Rightarrow> error + AudioBuffer" where
  "createBuffer nch len sr =
     (if nch = 0 \<or> len = 0 \<or> sr \<le> 0 then Inl NotSupportedError
      else Inr \<lparr>buf_length = len, sampleRate = sr,
                channelData = replicate nch (replicate len (Fin 0))\<rparr>)"

text \<open>
  \<open>for (let channel = 0; channel < buffer.numberOfChannels; channel++)\<close> with
  \<open>inputData = buffer.getChannelData(channel)\<close> and
  \<open>outputData = processedBuffer.getChannelData(channel)\<close>: the body gives the new
  contents of the output channel.
\<close>

definition each_channel ::
  "(nat \<Rightarrow> jsnum list \<Rightarrow> jsnum list \<Rightarrow> jsnum list) \<Rightarrow> AudioBuffer \<Rightarrow> AudioBuffer \<Rightarrow> AudioBuffer" where
  "each_channel body buffer processedBuffer =
     processedBuffer\<lparr>channelData :=
       map (\<lambda>channel. body channel (channelData buffer ! channel)
                          (channelData processedBuffer ! channel))
         [0..<numberOfChannels buffer]\<rparr>"

text \<open>Sequencing of calls that may throw.\<close>

definition bind_err :: "error + 'a \<Rightarrow> ('a \<Rightarrow> error + 'b) \<Rightarrow> error + 'b" where
  "bind_err m f = (case m of Inl e \<Rightarrow> Inl e | Inr x \<Rightarrow> f x)"

text \<open>
  \<open>Math.random\<close>: the source of randomness is a stream of reals (each in \<open>[0, 1)\<close> on the
  platform); a call takes the head and leaves the tail.
\<close>

type_synonym rng = "nat \<Rightarrow> real"

definition Math_random :: "rng \<Rightarrow> real \<times> rng" where
  "Math_random r = (r 0, \<lambda>n. r (Suc n))"

section \<open>The effect library\<close>

subsection \<open>Bit-depth reduction\<close>

definition bitCrush_sample :: "jsnum \<Rightarrow> jsnum \<Rightarrow> jsnum" where
  "bitCrush_sample steps x =
     (let scaled = (x + Fin 1) / Fin 2;
          quantized = Math_floor (scaled * steps) / steps
      in quantized * Fin 2 - Fin 1)"

definition bitCrush_channel :: "jsnum \<Rightarrow> jsnum list \<Rightarrow> jsnum list \<Rightarrow> jsnum list" where
  "bitCrush_channel steps inputData outputData =
     for_range 0 (length inputData)
       (\<lambda>i out. out[i := bitCrush_sample steps (get inputData i)]) outputData"

definition processBitCrush :: "AudioBuffer \<Rightarrow> int \<Rightarrow> error + AudioBuffer" where
  "processBitCrush buffer bits =
     (case createBuffer (numberOfChannels buffer) (buf_length buffer) (sampleRate buffer) of
        Inl e \<Rightarrow> Inl e
      | Inr processedBuffer \<Rightarrow>
          Inr (each_channel (\<lambda>channel. bitCrush_channel (Math_pow2_int bits))
                 buffer processedBuffer))"

subsection \<open>Transient enhancement\<close>

definition transient_channel ::
  "AudioBuffer \<Rightarrow> real \<Rightarrow> real \<Rightarrow> jsnum list \<Rightarrow> jsnum list \<Rightarrow> jsnum list" where
  "transient_channel buffer attackGain sustainGain inputData outputData =
     (let isLikelyLoop = (buf_duration buffer > 2.0);
          attackTime = (if isLikelyLoop then 0.002 else 0.005);
          releaseTime = (if isLikelyLoop then 0.02 else 0.05);
          attackSamples = Fin (of_int \<lfloor>attackTime * sampleRate buffer\<rfloor>);
          releaseSamples = Fin (of_int \<lfloor>releaseTime * sampleRate buffer\<rfloor>)
      in snd (for_range 0 (length inputData)
           (\<lambda>i (envelope, out).
              let inputSample = Math_abs (get inputData i);
                  envelope' = (if envelope < inputSample
                               then envelope + (inputSample - envelope) / attackSamples
                               else envelope + (inputSample - envelope) / releaseSamples);
                  transientThreshold = (if isLikelyLoop then Fin 1.2 else Fin 1.5);
                  isTransient = (envelope' * transientThreshold < inputSample)
              in (envelope',
                  out[i := get inputData i * (if isTransient then Fin attackGain else Fin sustainGain)]))
           (Fin 0, outputData)))"

definition processTransientEnhancement ::
  "AudioBuffer \<Rightarrow> real \<Rightarrow> real \<Rightarrow> error + AudioBuffer" where
  "processTransientEnhancement buffer attackGain sustainGain =
     (case createBuffer (numberOfChannels buffer) (buf_length buffer) (sampleRate buffer) of
        Inl e \<Rightarrow> Inl e
      | Inr processedBuffer \<Rightarrow>
          Inr (each_channel (\<lambda>channel. transient_channel buffer attackGain sustainGain)
                 buffer processedBuffer))"

subsection \<open>Pitch shift\<close>

text \<open>
  The ratio is a number of the platform: when the power overflows, the read position is
  \<open>0 * Infinity = NaN\<close> at \<open>i = 0\<close> and \<open>Infinity\<close> after, and neither comparison
  holds.
\<close>

definition pitchShift_channel :: "jsnum \<Rightarrow> jsnum list \<Rightarrow> jsnum list \<Rightarrow> jsnum list" where
  "pitchShift_channel pitchRatio inputData outputData =
     for_range 0 (length outputData)
       (\<lambda>i out.
          let readIndex = Fin (real i) * pitchRatio;
              readIndex1 = Math_floor readIndex;
              readIndex2 = readIndex1 + Fin 1;
              fraction = readIndex - readIndex1
          in if readIndex2 < Fin (real (length inputData))
             then out[i := get_js inputData readIndex1 * (Fin 1 - fraction)
                         + get_js inputData readIndex2 * fraction]
             else if readIndex1 < Fin (real (length inputData))
             then out[i := get_js inputData readIndex1]
             else out)
       outputData"

definition processPitchShift :: "AudioBuffer \<Rightarrow> real \<Rightarrow> error + AudioBuffer" where
  "processPitchShift buffer semitones =
     (case createBuffer (numberOfChannels buffer) (buf_length buffer) (sampleRate buffer) of
        Inl e \<Rightarrow> Inl e
      | Inr processedBuffer \<Rightarrow>
          (let pitchRatio = Math_pow2 (semitones / 12)
           in Inr (each_channel (\<lambda>channel. pitchShift_channel pitchRatio)
                     buffer processedBuffer)))"

subsection \<open>Distortion\<close>

definition distortion_channel :: "real \<Rightarrow> jsnum list \<Rightarrow> jsnum list \<Rightarrow> jsnum list" where
  "distortion_channel amount inputData outputData =
     for_range 0 (length inputData)
       (\<lambda>i out. out[i := Math_tanh (get inputData i * Fin amount)]) outputData"

definition processDistortion :: "AudioBuffer \<Rightarrow> real \<Rightarrow> error + AudioBuffer" where
  "processDistortion buffer amount =
     (case createBuffer (numberOfChannels buffer) (buf_length buffer) (sampleRate buffer) of
        Inl e \<Rightarrow> Inl e
      | Inr processedBuffer \<Rightarrow>
          Inr (each_channel (\<lambda>channel. distortion_channel amount) buffer processedBuffer))"

subsection \<open>Reverb\<close>

text \<open>
  The impulse response is decaying noise: two channels of \<open>impulseLength\<close> samples, each
  drawn from \<open>Math.random\<close> in turn.
\<close>

definition fill_impulse :: "nat \<Rightarrow> rng \<Rightarrow> AudioBuffer \<Rightarrow> AudioBuffer \<times> rng" where
  "fill_impulse impulseLength rng impulse =
     for_range 0 (numberOfChannels impulse)
       (\<lambda>channel (imp, r).
          for_range 0 impulseLength
            (\<lambda>i (imp, r).
               let (u, r') = Math_random r;
                   v = Fin ((u * 2 - 1) * exp (- real i / (real impulseLength * 0.5)))
               in (imp\<lparr>channelData := (channelData imp)
                         [channel := (channelData imp ! channel)[i := v]]\<rparr>, r'))
            (imp, r))
       (impulse, rng)"

definition reverb_channel ::
  "AudioBuffer \<Rightarrow> nat \<Rightarrow> real \<Rightarrow> nat \<Rightarrow> jsnum list \<Rightarrow> jsnum list \<Rightarrow> jsnum list" where
  "reverb_channel impulse impulseLength wetDry channel inputData outputData =
     (let dry = for_range 0 (length inputData)
                  (\<lambda>i out. out[i := get inputData i * Fin (1 - wetDry)]) outputData;
          impulseData = channelData impulse ! (channel mod numberOfChannels impulse)
      in for_range 0 (length inputData)
           (\<lambda>i out.
              for_range 0 (min impulseLength (length out - i))
                (\<lambda>j out. out[i + j := get out (i + j)
                                   + get inputData i * get impulseData j * Fin wetDry])
                out)
           dry)"

definition processReverb ::
  "rng \<Rightarrow> AudioBuffer \<Rightarrow> real \<Rightarrow> real \<Rightarrow> error + (AudioBuffer \<times> rng)" where
  "processReverb rng buffer roomSize wetDry =
     (let isLikelyLoop = (buf_duration buffer > 2.0);
          extraTime = (if isLikelyLoop then 0.5 else 1.0)
      in case createBuffer (numberOfChannels buffer)
                (buf_length buffer + nat \<lfloor>sampleRate buffer * extraTime\<rfloor>)
                (sampleRate buffer) of
           Inl e \<Rightarrow> Inl e
         | Inr processedBuffer \<Rightarrow>
             (let impulseLength = nat \<lfloor>sampleRate buffer * roomSize\<rfloor>
              in case createBuffer 2 impulseLength (sampleRate buffer) of
                   Inl e \<Rightarrow> Inl e
                 | Inr impulse0 \<Rightarrow>
                     (let (impulse, rng') = fill_impulse impulseLength rng impulse0
                      in Inr (each_channel (reverb_channel impulse impulseLength wetDry)
                                buffer processedBuffer, rng'))))"

subsection \<open>Delay\<close>

text \<open>
  One tap: \<open>outputData[i + delaySamples] += inputData[i] * currentFeedback\<close> for every
  \<open>i\<close>, where the position is inside the output. A negative position (a negative delay
  time) is no element of the array: the store is ignored.
\<close>

definition delay_tap :: "int \<Rightarrow> real \<Rightarrow> jsnum list \<Rightarrow> jsnum list \<Rightarrow> jsnum list" where
  "delay_tap delaySamples currentFeedback inputData outputData =
     for_range 0 (length inputData)
       (\<lambda>i out.
          let delayPos = int i + delaySamples
          in if delayPos < int (length out) \<and> 0 \<le> delayPos
             then out[nat delayPos := get out (nat delayPos)
                                        + get inputData i * Fin currentFeedback]
             else out)
       outputData"

text \<open>
  The tap loop \<open>while (currentFeedback > 0.01 && tapCount < maxTaps)\<close>. The state is the
  output, the current feedback and the number of taps made. The feedback decides when the
  loop ends, so it is the double that the platform computes: the literal \<open>0.01\<close> is the
  double nearest to it, and \<open>currentFeedback *= feedback\<close> rounds the product.
\<close>

function delay_taps ::
  "int \<Rightarrow> real \<Rightarrow> nat \<Rightarrow> jsnum list \<Rightarrow> jsnum list \<times> real \<times> nat \<Rightarrow> jsnum list \<times> real \<times> nat" where
  "delay_taps delaySamples feedback maxTaps inputData (out, currentFeedback, tapCount) =
     (if currentFeedback > round_double 0.01 \<and> tapCount < maxTaps
      then delay_taps delaySamples feedback maxTaps inputData
             (delay_tap delaySamples currentFeedback inputData out,
              round_double (currentFeedback * feedback), tapCount + 1)
      else (out, currentFeedback, tapCount))"
  by pat_completeness auto
termination
  by (relation "measure (\<lambda>(delaySamples, feedback, maxTaps, inputData, out, currentFeedback, tapCount).
        maxTaps - tapCount)") auto

definition delay_maxTaps :: "AudioBuffer \<Rightarrow> nat" where
  "delay_maxTaps buffer = (if buf_duration buffer > 2.0 then 3 else 10)"

text \<open>
  One channel of \<open>processDelay\<close>: the copy of the dry signal and the tap loop. The
  feedback amount that the caller passes is a number of the platform: the double nearest
  to the real given here.
\<close>

definition delay_channel ::
  "AudioBuffer \<Rightarrow> real \<Rightarrow> real \<Rightarrow> jsnum list \<Rightarrow> jsnum list \<Rightarrow> jsnum list \<times> real \<times> nat" where
  "delay_channel buffer delayTime feedback inputData outputData =
     (let delaySamples = \<lfloor>delayTime * sampleRate buffer\<rfloor>;
          copied = for_range 0 (length inputData) (\<lambda>i out. out[i := get inputData i]) outputData;
          feedback = round_double feedback
      in delay_taps delaySamples feedback (delay_maxTaps buffer) inputData (copied, feedback, 0))"

definition processDelay :: "AudioBuffer \<Rightarrow> real \<Rightarrow> real \<Rightarrow> error + AudioBuffer" where
  "processDelay buffer delayTime feedback =
     (let isLikelyLoop = (buf_duration buffer > 2.0);
          extraTime = (if isLikelyLoop then 0.5 else 1.0)
      in case createBuffer (numberOfChannels buffer)
                (buf_length buffer + nat \<lfloor>sampleRate buffer * extraTime\<rfloor>)
                (sampleRate buffer) of
           Inl e \<Rightarrow> Inl e
         | Inr processedBuffer \<Rightarrow>
             Inr (each_channel (\<lambda>channel inputData outputData.
                      fst (delay_channel buffer delayTime feedback inputData outputData))
                    buffer processedBuffer))"

subsection \<open>The delay of the first version of the library\<close>

text \<open>
  \<open>processDelay\<close> of \<open>src/lib/audioProcessor.js\<close> before the enhancement: the tap loop
  is \<open>while (currentFeedback > 0.01)\<close>, with no count of the taps. The loop need not
  end (it does not with the feedback \<open>1\<close>), so the model is given the number of
  turns it may take and returns \<open>None\<close> when they do not suffice. The state is the
  output, the current feedback and, for the record, the number of taps made.
\<close>

fun legacy_delay_taps ::
  "nat \<Rightarrow> int \<Rightarrow> real \<Rightarrow> jsnum list \<Rightarrow> jsnum list \<times> real \<times> nat \<Rightarrow> (jsnum list \<times> real \<times> nat) option" where
  "legacy_delay_taps 0 delaySamples feedback inputData (out, currentFeedback, tapCount) = None"
| "legacy_delay_taps (Suc fuel) delaySamples feedback inputData (out, currentFeedback, tapCount) =
     (if currentFeedback > round_double 0.01
      then legacy_delay_taps fuel delaySamples feedback inputData
             (delay_tap delaySamples currentFeedback inputData out,
              round_double (currentFeedback * feedback), tapCount + 1)
      else Some (out, currentFeedback, tapCount))"

definition legacy_delay_channel ::
  "nat \<Rightarrow> AudioBuffer \<Rightarrow> real \<Rightarrow> real \<Rightarrow> jsnum list \<Rightarrow> jsnum list \<Rightarrow> (jsnum list \<times> real \<times> nat) option" where
  "legacy_delay_channel fuel buffer delayTime feedback inputData outputData =
     (let delaySamples = \<lfloor>delayTime * sampleRate buffer\<rfloor>;
          copied = for_range 0 (length inputData) (\<lambda>i out. out[i := get inputData i]) outputData;
          feedback = round_double feedback
      in legacy_delay_taps fuel delaySamples feedback inputData (copied, feedback, 0))"

section \<open>Feature extraction\<close>

record Peak =
  pk_index :: int
  pk_value :: jsnum
  pk_time :: jsnum

record FeatureSet =
  attackTime :: jsnum
  decayTime :: jsnum
  sustainLevel :: jsnum
  releaseTime :: jsnum
  energy :: jsnum
  spectralCentroid :: jsnum
  peakValue :: jsnum
  peakIndex :: nat
  duration :: real
  dynamicRange :: jsnum
  transientDensity :: jsnum
  significantPeaks :: "Peak list"

definition isLikelyLoop :: "FeatureSet \<Rightarrow> bool" where
  "isLikelyLoop features \<longleftrightarrow> length (significantPeaks features) > 3 \<or> duration features > 2.0"

text \<open>
  The scan for peaks, from position \<open>i\<close>: \<open>for (let i = windowSize; i < data.length -
  windowSize; i++)\<close>, where an accepted peak moves \<open>i\<close> on by the window before the
  increment. The peaks are pushed in the order of the scan.
\<close>

function peaks_from :: "jsnum list \<Rightarrow> real \<Rightarrow> nat \<Rightarrow> jsnum \<Rightarrow> nat \<Rightarrow> Peak list" where
  "peaks_from data rate windowSize maxValue i =
     (if i + windowSize < length data
      then (let currentValue = Math_abs (get data i)
            in if maxValue * Fin 0.3 < currentValue \<and>
                  list_all (\<lambda>j. \<not> (j \<noteq> i \<and> currentValue < Math_abs (get data j)))
                    [i - windowSize..<i + windowSize]
               then \<lparr>pk_index = int i, pk_value = currentValue,
                      pk_time = Fin (real i) / Fin rate\<rparr>
                    # peaks_from data rate windowSize maxValue (i + windowSize + 1)
               else peaks_from data rate windowSize maxValue (i + 1))
      else [])"
  by pat_completeness auto
termination
  by (relation "measure (\<lambda>(data, rate, windowSize, maxValue, i). length data - i)") auto

definition findSignificantPeaks :: "jsnum list \<Rightarrow> real \<Rightarrow> Peak list" where
  "findSignificantPeaks data rate =
     (let windowSize = nat \<lfloor>rate * 0.01\<rfloor>;
          maxValue = for_range 0 (length data)
                       (\<lambda>i maxValue. Math_max maxValue (Math_abs (get data i))) (Fin 0)
      in peaks_from data rate windowSize maxValue windowSize)"

text \<open>
  The steps of \<open>extractFeatures\<close>, in the order of the source. The main peak: the first
  position of the greatest absolute amplitude.
\<close>

definition findMainPeak :: "jsnum list \<Rightarrow> nat \<times> jsnum" where
  "findMainPeak data =
     for_range 0 (length data)
       (\<lambda>i (peakIndex, peakValue).
          let absValue = Math_abs (get data i)
          in if peakValue < absValue then (i, absValue) else (peakIndex, peakValue))
       (0, Fin 0)"

text \<open>
  The end of the decay: a loop with a \<open>break\<close>, so the first position from the peak on
  whose amplitude is below a quarter of the peak, or the peak's position if there is none.
\<close>

definition findDecayIndex :: "jsnum list \<Rightarrow> nat \<Rightarrow> jsnum \<Rightarrow> nat" where
  "findDecayIndex data peakAt peakVal =
     (let decayThreshold = peakVal * Fin 0.25
      in case find (\<lambda>i. Math_abs (get data i) < decayThreshold) [peakAt..<length data] of
           None \<Rightarrow> peakAt
         | Some i \<Rightarrow> i)"

text \<open>The sustain level: \<open>sustainLevel /= (sustainEnd - sustainStart) || 1\<close>.\<close>

definition sustainLevelOf :: "jsnum list \<Rightarrow> nat \<Rightarrow> jsnum" where
  "sustainLevelOf data decayIndex =
     (let sustainStart = min decayIndex (nat \<lfloor>real (length data) * 0.3\<rfloor>);
          sustainEnd = nat \<lfloor>real (length data) * 0.7\<rfloor>;
          sustainSum = for_range sustainStart (min sustainEnd (length data))
                         (\<lambda>i sustainLevel. sustainLevel + Math_abs (get data i)) (Fin 0);
          sustainWindow = real sustainEnd - real sustainStart
      in sustainSum / Fin (if sustainWindow = 0 then 1 else sustainWindow))"

definition energyOf :: "jsnum list \<Rightarrow> jsnum" where
  "energyOf data =
     for_range 0 (length data) (\<lambda>i energy. energy + get data i * get data i) (Fin 0)
     / Fin (real (length data))"

definition zeroCrossingsOf :: "jsnum list \<Rightarrow> nat" where
  "zeroCrossingsOf data =
     for_range 1 (length data)
       (\<lambda>i zeroCrossings.
          if (Fin 0 \<le> get data i \<and> get data (i - 1) < Fin 0) \<or>
             (get data i < Fin 0 \<and> Fin 0 \<le> get data (i - 1))
          then zeroCrossings + 1 else zeroCrossings)
       0"

definition dynamicRangeOf :: "jsnum list \<Rightarrow> jsnum" where
  "dynamicRangeOf data =
     (let (mn, mx) =
            for_range 0 (length data)
              (\<lambda>i (mn, mx). (Math_min mn (get data i), Math_max mx (get data i)))
              (Fin 1, Fin (- 1))
      in mx - mn)"

text \<open>\<open>getChannelData(0)\<close> throws on a buffer without channels.\<close>

definition extractFeatures :: "AudioBuffer \<Rightarrow> error + FeatureSet" where
  "extractFeatures buffer =
     (if numberOfChannels buffer = 0 then Inl IndexSizeError
      else
       (let data = channelData buffer ! 0;
            peaks = findSignificantPeaks data (sampleRate buffer);
            (peakIndex, peakValue) = findMainPeak data;
            decayIndex = findDecayIndex data peakIndex peakValue;
            releaseStart = nat \<lfloor>real (length data) * 0.7\<rfloor>
        in Inr \<lparr>attackTime = Fin (real peakIndex) / Fin (sampleRate buffer),
                 decayTime = Fin (real decayIndex - real peakIndex) / Fin (sampleRate buffer),
                 sustainLevel = sustainLevelOf data decayIndex,
                 releaseTime =
                   Fin (real (length data) - real releaseStart) / Fin (sampleRate buffer),
                 energy = energyOf data,
                 spectralCentroid =
                   Fin (real (zeroCrossingsOf data)) / Fin (real (length data))
                   * Fin (sampleRate buffer) / Fin 2,
                 peakValue = peakValue,
                 peakIndex = peakIndex,
                 duration = buf_duration buffer,
                 dynamicRange = dynamicRangeOf data,
                 transientDensity = Fin (real (length peaks)) / Fin (buf_duration buffer),
                 significantPeaks = peaks\<rparr>))"

section \<open>Feature mutation\<close>

datatype focus = attack | decay | sustain | release | tone | balanced

definition randomize :: "real \<Rightarrow> rng \<Rightarrow> jsnum \<Rightarrow> real \<Rightarrow> real \<Rightarrow> jsnum \<times> rng" where
  "randomize amount rng val rnge focusFactor =
     (let (u, rng') = Math_random rng;
          variation = (u * 2 - 1) * rnge * amount * focusFactor
      in (val * Fin (1 + variation), rng'))"

text \<open>
  The peaks of a loop: \<open>index: Math.floor(randomize(peak.index, 0.02))\<close>, then
  \<open>value: randomize(peak.value, 0.1)\<close>, peak after peak. The index is an integer and the
  variation a real, so the new index is an integer.
\<close>

fun modify_peaks :: "real \<Rightarrow> rng \<Rightarrow> Peak list \<Rightarrow> Peak list \<times> rng" where
  "modify_peaks amount rng [] = ([], rng)"
| "modify_peaks amount rng (peak # peaks) =
     (let (u, rng1) = Math_random rng;
          variation = (u * 2 - 1) * 0.02 * amount * 1.0;
          index' = \<lfloor>real_of_int (pk_index peak) * (1 + variation)\<rfloor>;
          (value', rng2) = randomize amount rng1 (pk_value peak) 0.1 1.0;
          (peaks', rng3) = modify_peaks amount rng2 peaks
      in (peak\<lparr>pk_index := index', pk_value := value'\<rparr> # peaks', rng3))"

definition modifyFeatures ::
  "rng \<Rightarrow> FeatureSet \<Rightarrow> real \<Rightarrow> focus \<Rightarrow> bool \<Rightarrow> FeatureSet \<times> rng" where
  "modifyFeatures rng features amount focus isLoop =
     (let attackFocus = (if focus = attack then 2.0 else 1.0);
          (attackTime', rng1) = randomize amount rng (attackTime features) 0.7 attackFocus;
          decayFocus = (if focus = decay then 2.0 else 1.0);
          (decayTime', rng2) = randomize amount rng1 (decayTime features) 0.8 decayFocus;
          sustainFocus = (if focus = sustain then 2.0 else 1.0);
          (sustainLevel', rng3) = randomize amount rng2 (sustainLevel features) 0.6 sustainFocus;
          releaseFocus = (if focus = release then 2.0 else 1.0);
          (releaseTime', rng4) = randomize amount rng3 (releaseTime features) 0.9 releaseFocus;
          toneFocus = (if focus = tone then 2.0 else 1.0);
          (spectralCentroid', rng5) =
             randomize amount rng4 (spectralCentroid features) 0.6 toneFocus;
          energyRange = (if isLoop then 0.2 else 0.4);
          (energy', rng6) = randomize amount rng5 (energy features) energyRange 1.0;
          modified = features\<lparr>attackTime := attackTime', decayTime := decayTime',
                       sustainLevel := sustainLevel', releaseTime := releaseTime',
                       spectralCentroid := spectralCentroid', energy := energy'\<rparr>
      in if isLoop \<and> length (significantPeaks features) > 0
         then (let (peaks', rng7) = modify_peaks amount rng6 (significantPeaks features)
               in (modified\<lparr>significantPeaks := peaks'\<rparr>, rng7))
         else (modified, rng6))"

section \<open>Envelope synthesis\<close>

text \<open>An element read and written at an integer position.\<close>

definition get_int :: "jsnum list \<Rightarrow> int \<Rightarrow> jsnum" where
  "get_int xs i = (if 0 \<le> i \<and> nat i < length xs then xs ! nat i else NaN)"

definition set_int :: "jsnum list \<Rightarrow> int \<Rightarrow> jsnum \<Rightarrow> jsnum list" where
  "set_int xs i v = (if 0 \<le> i then xs[nat i := v] else xs)"

definition processOneShot :: "FeatureSet \<Rightarrow> jsnum list \<Rightarrow> jsnum list \<Rightarrow> jsnum list" where
  "processOneShot features inputData outputData =
     (let len = Fin (real (length inputData));
          attackEnd = Math_floor (attackTime features * peakValue features * len);
          decayEnd = attackEnd + Math_floor (decayTime features * len);
          releaseStart = nat \<lfloor>real (length inputData) * 0.7\<rfloor>
      in for_range 0 (length outputData)
           (\<lambda>i out.
              if Fin (real i) < attackEnd
              then (let originalIndex =
                          Math_floor (Fin (real i) * Fin (real (peakIndex features)) / attackEnd)
                    in out[i := get_js inputData
                                  (Math_min originalIndex (Fin (real (length inputData) - 1)))])
              else if Fin (real i) < decayEnd
              then (let decayPosition = (Fin (real i) - attackEnd) / (decayEnd - attackEnd);
                        originalDecayIndex =
                          Math_floor (Fin (real (peakIndex features))
                                      + decayPosition * (decayTime features * len))
                    in out[i := get_js inputData
                                  (Math_min originalDecayIndex (Fin (real (length inputData) - 1)))])
              else if i < releaseStart
              then out[i := get inputData i * (sustainLevel features / Fin 0.25)]
              else (let releasePosition =
                          Fin (real i - real releaseStart)
                          / Fin (real (length outputData) - real releaseStart);
                        releaseValue =
                          Fin 1 - releasePosition * (releaseTime features / Fin 0.3)
                    in out[i := get inputData i * Math_max (Fin 0) releaseValue]))
           outputData)"

definition loop_segment :: "FeatureSet \<Rightarrow> jsnum list \<Rightarrow> nat \<Rightarrow> jsnum list \<Rightarrow> jsnum list" where
  "loop_segment features inputData p outputData =
     (let peaks = significantPeaks features;
          currentPeak = peaks ! p;
          segmentStart = pk_index currentPeak;
          segmentEnd = (if p + 1 < length peaks then pk_index (peaks ! (p + 1))
                        else int (length inputData));
          segmentLength = segmentEnd - segmentStart
      in if segmentLength < 10 then outputData
         else
          (let attackEnd = Fin (of_int segmentStart)
                 + Math_floor (Fin (of_int segmentLength) * Fin 0.1 * attackTime features / Fin 0.01);
               decayEnd = segmentStart + \<lfloor>real_of_int segmentLength * 0.3\<rfloor>;
               releaseStart = segmentStart + \<lfloor>real_of_int segmentLength * 0.7\<rfloor>
           in fold
                (\<lambda>i out.
                   if Fin (of_int i) < attackEnd
                   then (let attackPosition =
                               (Fin (of_int i) - Fin (of_int segmentStart))
                               / (attackEnd - Fin (of_int segmentStart));
                             attackFactor =
                               attackPosition * (Fin 2 - attackTime features / Fin 0.01)
                         in set_int out i (get_int inputData i * attackFactor))
                   else if i < decayEnd
                   then (let decayPosition =
                               (Fin (of_int i) - attackEnd) / (Fin (of_int decayEnd) - attackEnd);
                             decayFactor =
                               Fin 1 - decayPosition
                                 * (Fin 1 - sustainLevel features / Fin 0.25)
                                 * (decayTime features / Fin 0.05)
                         in set_int out i (get_int inputData i * decayFactor))
                   else if i < releaseStart
                   then set_int out i (get_int inputData i * (sustainLevel features / Fin 0.25))
                   else (let releasePosition =
                               Fin (of_int (i - releaseStart)) / Fin (of_int (segmentEnd - releaseStart));
                             releaseValue =
                               (sustainLevel features / Fin 0.25)
                               * (Fin 1 - releasePosition * (releaseTime features / Fin 0.1))
                         in set_int out i (get_int inputData i * Math_max (Fin 0) releaseValue)))
                [segmentStart..min segmentEnd (int (length outputData)) - 1]
                outputData))"

definition processLoopAudio :: "FeatureSet \<Rightarrow> jsnum list \<Rightarrow> jsnum list \<Rightarrow> jsnum list" where
  "processLoopAudio features inputData outputData =
     (let copied = for_range 0 (length inputData) (\<lambda>i out. out[i := get inputData i]) outputData
      in if length (significantPeaks features) > 1
         then for_range 0 (length (significantPeaks features))
                (loop_segment features inputData) copied
         else copied)"

definition applySpectralAdjustment :: "jsnum list \<Rightarrow> jsnum \<Rightarrow> jsnum list" where
  "applySpectralAdjustment data spectralRatio =
     (if Fin 1 < spectralRatio
      then for_range 1 (length data)
             (\<lambda>i d. d[i := get d i + (get d i - get d (i - 1)) * (spectralRatio - Fin 1) * Fin 0.5])
             data
      else if spectralRatio < Fin 1
      then fst (for_range 1 (length data)
                  (\<lambda>i (d, prevSample).
                     let v = get d i * spectralRatio + prevSample * (Fin 1 - spectralRatio)
                     in (d[i := v], v))
                  (data, get data 0))
      else data)"

text \<open>The two steps after the envelope: the energy adjustment and the spectral adjustment.\<close>

definition energyRatio :: "FeatureSet \<Rightarrow> jsnum" where
  "energyRatio features =
     Math_sqrt (energy features / (if Fin 0 < energy features then energy features else Fin 0.0001))"

definition spectralRatio :: "FeatureSet \<Rightarrow> jsnum" where
  "spectralRatio features =
     spectralCentroid features
     / (if Fin 0 < spectralCentroid features then spectralCentroid features else Fin 0.0001)"

definition postProcess :: "FeatureSet \<Rightarrow> jsnum list \<Rightarrow> jsnum list" where
  "postProcess features outputData =
     (let scaled = for_range 0 (length outputData)
                     (\<lambda>i out. out[i := get out i * energyRatio features]) outputData
      in applySpectralAdjustment scaled (spectralRatio features))"

definition synthesizeAudio :: "AudioBuffer \<Rightarrow> FeatureSet \<Rightarrow> bool \<Rightarrow> error + AudioBuffer" where
  "synthesizeAudio originalBuffer features isLoop =
     (case createBuffer (numberOfChannels originalBuffer) (buf_length originalBuffer)
             (sampleRate originalBuffer) of
        Inl e \<Rightarrow> Inl e
      | Inr newBuffer \<Rightarrow>
          Inr (each_channel
                 (\<lambda>channel inputData outputData.
                    postProcess features
                      (if isLoop then processLoopAudio features inputData outputData
                       else processOneShot features inputData outputData))
                 originalBuffer newBuffer))"

definition generateVariation ::
  "rng \<Rightarrow> AudioBuffer \<Rightarrow> real \<Rightarrow> focus \<Rightarrow> error + (AudioBuffer \<times> rng)" where
  "generateVariation rng buffer variationAmount focus =
     bind_err (extractFeatures buffer)
       (\<lambda>features.
          let isLoop = isLikelyLoop features;
              (modifiedFeatures, rng') = modifyFeatures rng features variationAmount focus isLoop
          in bind_err (synthesizeAudio buffer modifiedFeatures isLoop)
               (\<lambda>newBuffer. Inr (newBuffer, rng')))"

section \<open>The orchestrators\<close>

text \<open>
  \<open>generateVariations\<close> of the hook: the recipe of eight variations from the loaded
  sample, the balance and the loop flag. Without a sample it reports \<open>No sample loaded\<close>;
  an exception of a stage ends the batch, and no variation is stored.
\<close>

definition generateVariations ::
  "rng \<Rightarrow> AudioBuffer option \<Rightarrow> real \<Rightarrow> bool \<Rightarrow> error + (AudioBuffer list \<times> rng)" where
  "generateVariations rng originalSample mlBalance isLoop =
     (case originalSample of
        None \<Rightarrow> Inl NoSampleLoaded
      | Some sample \<Rightarrow>
          bind_err (generateVariation rng sample (0.6 * mlBalance) attack) (\<lambda>(v1, rng1).
          bind_err (generateVariation rng1 sample (0.7 * mlBalance) decay) (\<lambda>(v2, rng2).
          bind_err (generateVariation rng2 sample (0.65 * mlBalance) sustain) (\<lambda>(v3, rng3).
          bind_err (generateVariation rng3 sample (0.7 * mlBalance) release) (\<lambda>(v4, rng4).
          bind_err (generateVariation rng4 sample (0.8 * mlBalance) tone) (\<lambda>(toneVariation, rng5).
          bind_err (if mlBalance < 0.7 then processBitCrush toneVariation 10
                    else Inr toneVariation) (\<lambda>v5.
          bind_err (processPitchShift sample (if isLoop then 1 else 3)) (\<lambda>pitchShifted.
          bind_err (generateVariation rng5 pitchShifted (0.5 * mlBalance) balanced) (\<lambda>(v6, rng6).
          bind_err (processReverb rng6 sample (if isLoop then 0.1 else 0.3)
                      (if isLoop then 0.3 else 0.6)) (\<lambda>(reverbed, rng7).
          bind_err (generateVariation rng7 reverbed (0.4 * mlBalance)
                      (if isLoop then sustain else release)) (\<lambda>(v7, rng8).
          bind_err (if isLoop
                    then bind_err (processDelay sample 0.125 0.3)
                           (\<lambda>delayed. processDistortion delayed 3)
                    else bind_err (processDistortion sample 8)
                           (\<lambda>distorted. processBitCrush distorted 6)) (\<lambda>extreme.
          bind_err (generateVariation rng8 extreme (0.9 * mlBalance) balanced) (\<lambda>(v8, rng9).
          Inr ([v1, v2, v3, v4, v5, v6, v7, v8], rng9))))))))))))))"

text \<open>\<open>AudioProcessor.generateVariations\<close>: the recipe of the effect library alone.\<close>

definition AudioProcessor_generateVariations ::
  "rng \<Rightarrow> AudioBuffer option \<Rightarrow> bool \<Rightarrow> error + (AudioBuffer list \<times> rng)" where
  "AudioProcessor_generateVariations rng originalBuffer isLoop =
     (case originalBuffer of
        None \<Rightarrow> Inl NoSampleLoaded
      | Some buffer \<Rightarrow>
          bind_err (processTransientEnhancement buffer (if isLoop then 1.1 else 1.3)
                      (if isLoop then 0.95 else 0.85)) (\<lambda>v1.
          bind_err (processPitchShift buffer (if isLoop then 1 else 3)) (\<lambda>v2.
          bind_err (processPitchShift buffer (if isLoop then - 1 else - 3)) (\<lambda>v3.
          bind_err (processBitCrush buffer (if isLoop then 10 else 8)) (\<lambda>v4.
          bind_err (processReverb rng buffer (if isLoop then 0.1 else 0.3)
                      (if isLoop then 0.3 else 0.5)) (\<lambda>(v5, rng1).
          bind_err (processDelay buffer (if isLoop then 0.125 else 0.25)
                      (if isLoop then 0.3 else 0.4)) (\<lambda>v6.
          bind_err (processPitchShift buffer (if isLoop then 0.5 else 1)) (\<lambda>pitchShifted.
          bind_err (processReverb rng1 pitchShifted (if isLoop then 0.05 else 0.1)
                      (if isLoop then 0.2 else 0.3)) (\<lambda>(v7, rng2).
          bind_err (if isLoop
                    then bind_err (processDelay buffer 0.125 0.3)
                           (\<lambda>delayed. processDistortion delayed 3)
                    else bind_err (processDistortion buffer 10)
                           (\<lambda>distorted. processBitCrush distorted 6)) (\<lambda>v8.
          Inr ([v1, v2, v3, v4, v5, v6, v7, v8], rng2)))))))))))"

section \<open>The classification rule of the specification\<close>

text \<open>
  The specification's words: a sample is a loop if the number of its significant peaks is
  above \<open>3\<close> or its duration above \<open>2.0\<close> seconds.
\<close>

definition spec_isLoop :: "nat \<Rightarrow> real \<Rightarrow> bool" where
  "spec_isLoop peakCount seconds \<longleftrightarrow> peakCount > 3 \<or> seconds > 2.0"

section \<open>Silence and finiteness\<close>

text \<open>
  A buffer of silence of the given shape; a buffer all of whose samples are zero; and a
  buffer all of whose samples are finite.
\<close>

definition silence :: "nat \<Rightarrow> nat \<Rightarrow> real \<Rightarrow> AudioBuffer" where
  "silence nch len sr =
     \<lparr>buf_length = len, sampleRate = sr, channelData = replicate nch (replicate len (Fin 0))\<rparr>"

definition silent :: "AudioBuffer \<Rightarrow> bool" where
  "silent b \<longleftrightarrow> list_all (list_all (\<lambda>x. x = Fin 0)) (channelData b)"

definition all_finite :: "AudioBuffer \<Rightarrow> bool" where
  "all_finite b \<longleftrightarrow> list_all (list_all isFinite) (channelData b)"

section \<open>A random source for examples\<close>

text \<open>The source that draws the same number every time.\<close>

definition constant_rng :: "real \<Rightarrow> rng" where
  "constant_rng u = (\<lambda>n. u)"

section \<open>Verification\<close>

declare peaks_from.simps [simp del]

declare delay_taps.simps [simp del]

subsection \<open>Loops that fill an array\<close>

lemma fold_update_length: "length (fold (\<lambda>i out. out[i := f i]) is out) = length out"
  by (induction "is" arbitrary: out) auto

lemma fold_update_nth:
  "j < length out \<Longrightarrow> distinct is \<Longrightarrow>
   fold (\<lambda>i out. out[i := f i]) is out ! j = (if j \<in> set is then f j else out ! j)"
  by (induction "is" arbitrary: out) (auto simp: fold_update_length nth_list_update)

lemma for_range_update_length [simp]:
  "length (for_range a b (\<lambda>i out. out[i := f i]) out) = length out"
  by (simp add: for_range_def fold_update_length)

lemma for_range_update_nth:
  "j < length out \<Longrightarrow>
   for_range a b (\<lambda>i out. out[i := f i]) out ! j = (if a \<le> j \<and> j < b then f j else out ! j)"
  by (simp add: for_range_def fold_update_nth)

lemma for_range_update_map:
  "length out = n \<Longrightarrow> for_range 0 n (\<lambda>i out. out[i := f i]) out = map f [0..<n]"
  by (rule nth_equalityI) (simp_all add: for_range_update_nth)

lemma fold_invariant_mem:
  "P s \<Longrightarrow> (\<And>i s. i \<in> set is \<Longrightarrow> P s \<Longrightarrow> P (body i s)) \<Longrightarrow> P (fold body is s)"
  by (induction "is" arbitrary: s) auto

lemma for_range_invariant_mem:
  "P s \<Longrightarrow> (\<And>i s. a \<le> i \<Longrightarrow> i < b \<Longrightarrow> P s \<Longrightarrow> P (body i s)) \<Longrightarrow>
   P (for_range a b body s)"
  unfolding for_range_def by (rule fold_invariant_mem) auto

lemma for_range_fixed:
  "(\<And>i. a \<le> i \<Longrightarrow> i < b \<Longrightarrow> body i s = s) \<Longrightarrow> for_range a b body s = s"
  by (rule for_range_invariant_mem [where P = "\<lambda>t. t = s"]) auto

lemma zeros_update [simp]: "(replicate m (Fin 0))[i := Fin 0] = replicate m (Fin 0)"
  by (cases "i < m") (simp_all add: list_eq_iff_nth_eq nth_list_update)

lemma map_get_upt: "map (\<lambda>i. f (get xs i)) [0..<length xs] = map f xs"
  by (rule nth_equalityI) (simp_all add: get_def)

lemma bitCrush_channel_map:
  "length outputData = length inputData \<Longrightarrow>
   bitCrush_channel steps inputData outputData = map (bitCrush_sample steps) inputData"
  by (simp add: bitCrush_channel_def for_range_update_map map_get_upt)

lemma createBuffer_wf:
  "wf_buffer b \<Longrightarrow>
   createBuffer (numberOfChannels b) (buf_length b) (sampleRate b) =
     Inr \<lparr>buf_length = buf_length b, sampleRate = sampleRate b,
          channelData = replicate (length (channelData b)) (replicate (buf_length b) (Fin 0))\<rparr>"
  by (simp add: wf_buffer_def createBuffer_def numberOfChannels_def)

lemma each_channel_silence:
  "each_channel (\<lambda>channel. body) b
     \<lparr>buf_length = n, sampleRate = r,
      channelData = replicate (length (channelData b)) z\<rparr> =
   \<lparr>buf_length = n, sampleRate = r, channelData = map (\<lambda>c. body c z) (channelData b)\<rparr>"
proof -
  have "map (\<lambda>channel. body (channelData b ! channel)
               (replicate (length (channelData b)) z ! channel))
          [0..<length (channelData b)] = map (\<lambda>c. body c z) (channelData b)"
    by (rule nth_equalityI) simp_all
  then show ?thesis
    by (simp add: each_channel_def numberOfChannels_def)
qed

lemma processBitCrush_wf:
  assumes "wf_buffer b"
  shows "processBitCrush b bits =
     Inr \<lparr>buf_length = buf_length b, sampleRate = sampleRate b,
          channelData = map (map (bitCrush_sample (Math_pow2_int bits))) (channelData b)\<rparr>"
proof -
  have "\<forall>c \<in> set (channelData b). length c = buf_length b"
    using assms by (simp add: wf_buffer_def list_all_iff)
  then show ?thesis
    using assms
    by (simp add: processBitCrush_def createBuffer_wf each_channel_silence bitCrush_channel_map)
qed


text \<open>
  When the power overflows to \<open>Infinity\<close> or is rounded to zero, every sample of the
  reduced buffer is \<open>NaN\<close>: the quotient is \<open>Infinity / Infinity\<close> or \<open>0 / 0\<close>.
\<close>

lemma bitCrush_sample_overflow: "bitCrush_sample PosInf x = NaN"
  by (cases x) (simp_all add: bitCrush_sample_def minus_jsnum_def Let_def)

lemma bitCrush_sample_underflow: "bitCrush_sample (Fin 0) x = NaN"
  by (cases x) (simp_all add: bitCrush_sample_def minus_jsnum_def Let_def)

lemma bitCrush_sample_idem_exact:
  "bitCrush_sample (Fin (2 powi b)) (bitCrush_sample (Fin (2 powi b)) x) =
   bitCrush_sample (Fin (2 powi b)) x"
  by (cases x) (simp_all add: bitCrush_sample_def minus_jsnum_def Let_def)

lemma bitCrush_sample_idem:
  "bitCrush_sample (Math_pow2_int b) (bitCrush_sample (Math_pow2_int b) x) =
   bitCrush_sample (Math_pow2_int b) x"
  by (simp add: Math_pow2_int_def bitCrush_sample_overflow bitCrush_sample_underflow
      bitCrush_sample_idem_exact)

lemma wf_buffer_map:
  "wf_buffer b \<Longrightarrow>
   wf_buffer \<lparr>buf_length = buf_length b, sampleRate = sampleRate b,
              channelData = map (map f) (channelData b)\<rparr>"
  by (simp add: wf_buffer_def list_all_iff)

text \<open>
  Claim C9. Bit-depth reduction is idempotent: for every buffer of the platform and every
  integer bit depth, reducing the reduced buffer again gives the reduced buffer.
\<close>

theorem processBitCrush_idempotent:
  assumes "wf_buffer buffer"
  shows "\<exists>crushed. processBitCrush buffer bits = Inr crushed \<and>
           processBitCrush crushed bits = Inr crushed"
proof -
  let ?q = "bitCrush_sample (Math_pow2_int bits)"
  let ?c = "\<lparr>buf_length = buf_length buffer, sampleRate = sampleRate buffer,
              channelData = map (map ?q) (channelData buffer)\<rparr>"
  have 1: "processBitCrush buffer bits = Inr ?c"
    using assms by (rule processBitCrush_wf)
  have "wf_buffer ?c"
    using assms by (rule wf_buffer_map)
  then have "processBitCrush ?c bits =
      Inr \<lparr>buf_length = buf_length buffer, sampleRate = sampleRate buffer,
           channelData = map (map ?q) (map (map ?q) (channelData buffer))\<rparr>"
    by (simp add: processBitCrush_wf)
  also have "map (map ?q) (map (map ?q) (channelData buffer)) = map (map ?q) (channelData buffer)"
    by (simp add: bitCrush_sample_idem comp_def)
  finally show ?thesis using 1 by blast
qed

theorem processBitCrush_idempotent_witness:
  "wf_buffer \<lparr>buf_length = 2, sampleRate = 44100, channelData = [[Fin 0.3, Fin (- 0.7)]]\<rparr> \<and>
   (\<exists>crushed.
      processBitCrush \<lparr>buf_length = 2, sampleRate = 44100,
                       channelData = [[Fin 0.3, Fin (- 0.7)]]\<rparr> 2 = Inr crushed \<and>
      processBitCrush crushed 2 = Inr crushed)"
proof -
  have wf: "wf_buffer \<lparr>buf_length = 2, sampleRate = 44100, channelData = [[Fin 0.3, Fin (- 0.7)]]\<rparr>"
    by (simp add: wf_buffer_def)
  show ?thesis
    using wf processBitCrush_idempotent [OF wf, of 2] by simp
qed

lemma bitCrush_sample_level:
  assumes "Fin (- 1) \<le> x" "x \<le> Fin 1" "1 \<le> bits" "bits \<le> 1023"
  shows "\<exists>k::nat. k \<le> 2 ^ nat bits \<and>
           bitCrush_sample (Math_pow2_int bits) x = Fin (2 * real k / 2 ^ nat bits - 1) \<and>
           (bitCrush_sample (Math_pow2_int bits) x = Fin 1 \<longleftrightarrow> x = Fin 1)"
proof -
  obtain r where x: "x = Fin r" and r: "- 1 \<le> r" "r \<le> 1"
    using assms(1,2) by (cases x) auto
  let ?n = "nat bits"
  let ?s = "(r + 1) / 2 * 2 ^ ?n"
  have pw: "(2::real) powi bits = 2 ^ ?n"
    using assms(3) by (simp add: power_int_def)
  have s0: "0 \<le> ?s" using r by simp
  have s1: "?s \<le> 2 ^ ?n" using r by (simp add: field_simps)
  have f0: "0 \<le> \<lfloor>?s\<rfloor>" using s0 by simp
  have "\<lfloor>?s\<rfloor> \<le> \<lfloor>(2::real) ^ ?n\<rfloor>" using s1 by (rule floor_mono)
  then have f1: "\<lfloor>?s\<rfloor> \<le> 2 ^ ?n" by simp
  let ?k = "nat \<lfloor>?s\<rfloor>"
  have k: "real ?k = of_int \<lfloor>?s\<rfloor>" using f0 by simp
  have val: "bitCrush_sample (Math_pow2_int bits) x = Fin (2 * real ?k / 2 ^ ?n - 1)"
    unfolding k using assms(3,4)
    by (simp add: x bitCrush_sample_def Math_pow2_int_def pw minus_jsnum_def Let_def)
  have kle: "?k \<le> 2 ^ ?n" using f1 f0 by (simp add: nat_le_iff)
  have top: "(2 * real ?k / 2 ^ ?n - 1 = 1) \<longleftrightarrow> r = 1"
  proof
    assume "2 * real ?k / 2 ^ ?n - 1 = (1::real)"
    then have "real ?k = 2 ^ ?n" by (simp add: field_simps)
    then have "of_int \<lfloor>?s\<rfloor> = (2::real) ^ ?n" using k by simp
    then have "(2::real) ^ ?n \<le> ?s" by (metis of_int_floor_le)
    then show "r = 1" using r by (simp add: field_simps)
  next
    assume "r = 1"
    then show "2 * real ?k / 2 ^ ?n - 1 = (1::real)" by simp
  qed
  show ?thesis
    using val kle top x by auto
qed


text \<open>
  Claim C10, as amended. For samples in \<open>[-1, 1]\<close> and a bit depth \<open>b\<close> from \<open>1\<close> to
  \<open>1023\<close>, every sample of the reduced buffer is one of the \<open>2^b + 1\<close> levels
  \<open>2 k / 2^b - 1\<close>, \<open>k = 0, \<dots>, 2^b\<close>, and the top level \<open>+1\<close> is taken exactly where
  the input sample is \<open>+1\<close>.
\<close>

theorem processBitCrush_levels:
  assumes "wf_buffer buffer" and "1 \<le> bits" and "bits \<le> 1023"
    and "\<forall>c \<in> set (channelData buffer). \<forall>x \<in> set c. Fin (- 1) \<le> x \<and> x \<le> Fin 1"
  shows "\<exists>crushed. processBitCrush buffer bits = Inr crushed \<and>
           length (channelData crushed) = length (channelData buffer) \<and>
           (\<forall>c < length (channelData buffer). \<forall>i < buf_length buffer.
              (\<exists>k::nat. k \<le> 2 ^ nat bits \<and>
                 channelData crushed ! c ! i = Fin (2 * real k / 2 ^ nat bits - 1)) \<and>
              (channelData crushed ! c ! i = Fin 1 \<longleftrightarrow> channelData buffer ! c ! i = Fin 1))"
proof -
  let ?q = "bitCrush_sample (Math_pow2_int bits)"
  let ?c = "\<lparr>buf_length = buf_length buffer, sampleRate = sampleRate buffer,
              channelData = map (map ?q) (channelData buffer)\<rparr>"
  have 1: "processBitCrush buffer bits = Inr ?c"
    using assms(1) by (rule processBitCrush_wf)
  have len: "\<forall>c \<in> set (channelData buffer). length c = buf_length buffer"
    using assms(1) by (simp add: wf_buffer_def list_all_iff)
  have "(\<exists>k::nat. k \<le> 2 ^ nat bits \<and>
            channelData ?c ! c ! i = Fin (2 * real k / 2 ^ nat bits - 1)) \<and>
        (channelData ?c ! c ! i = Fin 1 \<longleftrightarrow> channelData buffer ! c ! i = Fin 1)"
    if c: "c < length (channelData buffer)" and i: "i < buf_length buffer" for c i
  proof -
    have cin: "channelData buffer ! c \<in> set (channelData buffer)"
      using c by simp
    then have i': "i < length (channelData buffer ! c)"
      using len i by simp
    then have "channelData buffer ! c ! i \<in> set (channelData buffer ! c)"
      by simp
    then have "Fin (- 1) \<le> channelData buffer ! c ! i" "channelData buffer ! c ! i \<le> Fin 1"
      using assms(4) cin by blast+
    from bitCrush_sample_level [OF this assms(2,3)] show ?thesis
      using c i' by auto
  qed
  then show ?thesis using 1 by auto
qed

theorem processBitCrush_levels_witness:
  "wf_buffer \<lparr>buf_length = 3, sampleRate = 44100,
              channelData = [[Fin 1, Fin 0.3, Fin (- 1)]]\<rparr> \<and> (1::int) \<le> 2 \<and> (2::int) \<le> 1023 \<and>
   processBitCrush \<lparr>buf_length = 3, sampleRate = 44100,
                    channelData = [[Fin 1, Fin 0.3, Fin (- 1)]]\<rparr> 2 =
     Inr \<lparr>buf_length = 3, sampleRate = 44100, channelData = [[Fin 1, Fin 0, Fin (- 1)]]\<rparr>"
proof -
  let ?b = "\<lparr>buf_length = 3, sampleRate = 44100,
              channelData = [[Fin 1, Fin 0.3, Fin (- 1)]]\<rparr>"
  have wf: "wf_buffer ?b"
    by (simp add: wf_buffer_def)
  have rng: "\<forall>c \<in> set (channelData ?b). \<forall>x \<in> set c. Fin (- 1) \<le> x \<and> x \<le> Fin 1"
    by simp
  have val: "processBitCrush ?b 2 =
     Inr \<lparr>buf_length = 3, sampleRate = 44100, channelData = [[Fin 1, Fin 0, Fin (- 1)]]\<rparr>"
    by (simp add: processBitCrush_wf [OF wf] bitCrush_sample_def Math_pow2_int_def
        minus_jsnum_def Let_def)
  show ?thesis
    using wf val processBitCrush_levels [OF wf _ _ rng, of 2] by simp
qed

text \<open>
  Claim C10 as stated fails from the bit depth \<open>1024\<close> on: \<open>Math.pow(2, 1024)\<close> is
  \<open>Infinity\<close>, and every sample of the reduced buffer is \<open>NaN\<close>, which is none of the
  levels.
\<close>

theorem processBitCrush_overflow_counterexample:
  "processBitCrush \<lparr>buf_length = 3, sampleRate = 44100,
                    channelData = [[Fin 1, Fin 0.3, Fin (- 1)]]\<rparr> 1024 =
     Inr \<lparr>buf_length = 3, sampleRate = 44100, channelData = [[NaN, NaN, NaN]]\<rparr>"
proof -
  let ?b = "\<lparr>buf_length = 3, sampleRate = 44100,
              channelData = [[Fin 1, Fin 0.3, Fin (- 1)]]\<rparr>"
  have wf: "wf_buffer ?b"
    by (simp add: wf_buffer_def)
  have "Math_pow2_int 1024 = PosInf" by (simp add: Math_pow2_int_def)
  then show ?thesis
    by (simp add: processBitCrush_wf [OF wf] bitCrush_sample_overflow)
qed

subsection \<open>Rounding to a double\<close>

lemma power_int_2_pos: "0 < (2::real) powi e"
  by simp

lemma round_ties_even_of_int [simp]: "round_ties_even (of_int n) = n"
  by (simp add: round_ties_even_def)

lemma round_ties_even_nonneg: "0 \<le> m \<Longrightarrow> 0 \<le> round_ties_even m"
  by (auto simp: round_ties_even_def Let_def)

lemma round_ties_even_le: "m \<le> of_int N \<Longrightarrow> round_ties_even m \<le> N"
proof -
  assume a: "m \<le> of_int N"
  show ?thesis
  proof (cases "m = of_int N")
    case True then show ?thesis by simp
  next
    case False
    then have "m < of_int N" using a by simp
    then have "\<lfloor>m\<rfloor> < N" by (simp add: floor_less_iff)
    then show ?thesis by (auto simp: round_ties_even_def Let_def)
  qed
qed

lemma floor_log2_eq:
  assumes "2 powi e \<le> \<bar>x\<bar>" "\<bar>x\<bar> < 2 powi (e + 1)"
  shows "\<lfloor>log 2 \<bar>x\<bar>\<rfloor> = e"
proof -
  have pos: "0 < \<bar>x\<bar>" using assms(1) power_int_2_pos [of e] by linarith
  have 1: "of_int e \<le> log 2 \<bar>x\<bar>"
    using assms(1) pos by (simp add: le_log_iff powr_real_of_int')
  have "(2::real) powr (of_int (e + 1)) = 2 powi (e + 1)"
    by (rule powr_real_of_int') simp_all
  then have "\<bar>x\<bar> < 2 powr (of_int (e + 1))" using assms(2) by simp
  then have 2: "log 2 \<bar>x\<bar> < of_int (e + 1)"
    using pos by (subst log_less_iff) simp_all
  show ?thesis using 1 2 by (simp add: floor_eq_iff)
qed

lemma quantum_exp_eq:
  assumes "2 powi e \<le> \<bar>x\<bar>" "\<bar>x\<bar> < 2 powi (e + 1)" "- 1022 \<le> e"
  shows "quantum_exp x = e - 52"
  using floor_log2_eq [OF assms(1,2)] assms(3) by (simp add: quantum_exp_def)

lemma round_double_eq:
  assumes "2 powi e \<le> \<bar>x\<bar>" "\<bar>x\<bar> < 2 powi (e + 1)" "- 1022 \<le> e"
  shows "round_double x = of_int (round_ties_even (x / 2 powi (e - 52))) * 2 powi (e - 52)"
proof -
  have "0 < \<bar>x\<bar>" using assms(1) power_int_2_pos [of e] by linarith
  then have "x \<noteq> 0" by simp
  then show ?thesis
    by (simp add: round_double_def quantum_exp_eq [OF assms])
qed

lemma round_double_0_01: "round_double 0.01 = 5764607523034235 / 576460752303423488"
proof -
  have "round_double 0.01 = of_int (round_ties_even (0.01 / 2 powi (- 7 - 52))) * 2 powi (- 7 - 52)"
    by (rule round_double_eq) (simp_all add: power_int_minus)
  also have "(0.01::real) / 2 powi (- 7 - 52) = 576460752303423488 / 100"
    by (simp add: power_int_minus)
  also have "round_ties_even (576460752303423488 / 100) = 5764607523034235"
    by (simp add: round_ties_even_def Let_def)
  finally show ?thesis by (simp add: power_int_minus)
qed


lemma round_double_threshold: "round_double (1 / 100) = 5764607523034235 / 576460752303423488"
  using round_double_0_01 by simp

lemma quantum_exp_le:
  assumes "x \<noteq> 0" "\<bar>x\<bar> < 2 powi (j + 53)" "- 1074 \<le> j"
  shows "quantum_exp x \<le> j"
proof -
  have pos: "0 < \<bar>x\<bar>" using assms(1) by simp
  have "(2::real) powr (of_int (j + 53)) = 2 powi (j + 53)"
    by (rule powr_real_of_int') simp_all
  then have "\<bar>x\<bar> < 2 powr (of_int (j + 53))" using assms(2) by simp
  then have "log 2 \<bar>x\<bar> < of_int (j + 53)"
    using pos by (subst log_less_iff) simp_all
  then have "\<lfloor>log 2 \<bar>x\<bar>\<rfloor> < j + 53" by (simp add: floor_less_iff)
  then show ?thesis using assms(3) by (simp add: quantum_exp_def)
qed

lemma round_double_exact:
  assumes "\<bar>n\<bar> < 2 ^ 53" "- 1074 \<le> j"
  shows "round_double (of_int n * 2 powi j) = of_int n * 2 powi j"
proof (cases "n = 0")
  case True
  then show ?thesis by (simp add: round_double_def)
next
  case False
  let ?x = "of_int n * (2::real) powi j"
  have x0: "?x \<noteq> 0" using False by simp
  have "\<bar>?x\<bar> = of_int \<bar>n\<bar> * 2 powi j" by (simp add: abs_mult)
  also have "\<dots> < 2 ^ 53 * 2 powi j"
  proof -
    have "(of_int \<bar>n\<bar> :: real) < of_int (2 ^ 53)" using assms(1) by (simp only: of_int_less_iff)
    then show ?thesis by simp
  qed
  also have "\<dots> = 2 powi (j + 53)" by (simp add: power_int_add)
  finally have q: "quantum_exp ?x \<le> j"
    using x0 assms(2) by (intro quantum_exp_le) simp_all
  define q where "q = quantum_exp ?x"
  define k where "k = nat (j - q)"
  have j: "j = q + int k" using q by (simp add: q_def k_def)
  have "?x / 2 powi q = of_int n * 2 ^ k"
    unfolding j by (simp add: power_int_add)
  also have "\<dots> = of_int (n * 2 ^ k)" by simp
  finally have "round_ties_even (?x / 2 powi q) = n * 2 ^ k"
    by (simp only: round_ties_even_of_int)
  then have "round_double ?x = of_int (n * 2 ^ k) * 2 powi q"
    using x0 by (simp add: round_double_def q_def [symmetric])
  also have "\<dots> = ?x"
    unfolding j by (simp add: power_int_add)
  finally show ?thesis .
qed

lemma round_double_unit:
  assumes "0 \<le> x" "x \<le> 1"
  shows "0 \<le> round_double x \<and> round_double x \<le> 1"
proof (cases "x = 0")
  case True
  then show ?thesis by (simp add: round_double_def)
next
  case False
  then have pos: "0 < x" using assms(1) by simp
  define q where "q = quantum_exp x"
  have "log 2 \<bar>x\<bar> \<le> 0" using pos assms(2) by simp
  then have "\<lfloor>log 2 \<bar>x\<bar>\<rfloor> \<le> 0" by (simp add: floor_le_iff)
  then have q0: "q \<le> 0" by (simp add: q_def quantum_exp_def)
  define k where "k = nat (- q)"
  have q: "q = - int k" using q0 by (simp add: k_def)
  have pw: "(2::real) powi q = 1 / 2 ^ k" unfolding q by (simp add: power_int_minus field_simps)
  have m: "x / 2 powi q = x * 2 ^ k" by (simp add: pw)
  have "x * 2 ^ k \<le> of_int (2 ^ k)" using assms(2) by simp
  then have up: "round_ties_even (x / 2 powi q) \<le> 2 ^ k"
    unfolding m by (rule round_ties_even_le)
  have "0 \<le> x * 2 ^ k" using assms(1) by simp
  then have lo: "0 \<le> round_ties_even (x / 2 powi q)"
    unfolding m by (rule round_ties_even_nonneg)
  have val: "round_double x = of_int (round_ties_even (x / 2 powi q)) / 2 ^ k"
    using False by (simp add: round_double_def q_def [symmetric] pw)
  have "of_int (round_ties_even (x / 2 powi q)) \<le> (2::real) ^ k"
    using up by (metis of_int_le_iff of_int_numeral of_int_power)
  then show ?thesis
    unfolding val using lo by (simp add: field_simps)
qed

lemma round_double_0_1: "round_double 0.1 = 3602879701896397 / 36028797018963968"
proof -
  have "round_double 0.1 = of_int (round_ties_even (0.1 / 2 powi (- 4 - 52))) * 2 powi (- 4 - 52)"
    by (rule round_double_eq) (simp_all add: power_int_minus)
  also have "(0.1::real) / 2 powi (- 4 - 52) = 36028797018963968 / 5"
    by (simp add: power_int_minus)
  also have "round_ties_even (36028797018963968 / 5) = 7205759403792794"
    by (simp add: round_ties_even_def Let_def)
  finally show ?thesis by (simp add: power_int_minus)
qed

lemma round_double_0_1_squared:
  "round_double (3602879701896397 / 36028797018963968 * (3602879701896397 / 36028797018963968)) =
     1441151880758559 / 144115188075855872"
proof -
  let ?x = "3602879701896397 / 36028797018963968 * (3602879701896397 / 36028797018963968) :: real"
  have "round_double ?x = of_int (round_ties_even (?x / 2 powi (- 7 - 52))) * 2 powi (- 7 - 52)"
    by (rule round_double_eq) (simp_all add: power_int_minus)
  also have "?x / 2 powi (- 7 - 52) = 12980742146337070512478121581609 / 2251799813685248"
    by (simp add: power_int_minus)
  also have "round_ties_even (12980742146337070512478121581609 / 2251799813685248) = 5764607523034236"
    by (simp add: round_ties_even_def Let_def)
  finally show ?thesis by (simp add: power_int_minus)
qed

lemma round_double_0_1_cubed:
  "round_double (1441151880758559 / 144115188075855872 * (3602879701896397 / 36028797018963968)) =
     4611686018427389 / 4611686018427387904"
proof -
  let ?x = "1441151880758559 / 144115188075855872 * (3602879701896397 / 36028797018963968) :: real"
  have "round_double ?x = of_int (round_ties_even (?x / 2 powi (- 10 - 52))) * 2 powi (- 10 - 52)"
    by (rule round_double_eq) (simp_all add: power_int_minus)
  also have "?x / 2 powi (- 10 - 52) = 5192296858534828925567189011923 / 1125899906842624"
    by (simp add: power_int_minus)
  also have "round_ties_even (5192296858534828925567189011923 / 1125899906842624) = 4611686018427389"
    by (simp add: round_ties_even_def Let_def)
  finally show ?thesis by (simp add: power_int_minus)
qed

lemma round_double_one: "round_double 1 = 1"
  using round_double_exact [of 1 0] by simp

lemma round_double_tenth: "round_double (1 / 10) = 3602879701896397 / 36028797018963968"
  using round_double_0_1 by simp

lemma round_ties_even_ge: "of_int N \<le> m \<Longrightarrow> N \<le> round_ties_even m"
proof -
  assume "of_int N \<le> m"
  then have "N \<le> \<lfloor>m\<rfloor>" by (simp add: le_floor_iff)
  then show ?thesis by (auto simp: round_ties_even_def Let_def)
qed

lemma round_ties_even_near: "of_int (round_ties_even m) \<le> m + 1 / 2"
proof -
  have a: "of_int \<lfloor>m\<rfloor> \<le> m" by simp
  consider "m - of_int \<lfloor>m\<rfloor> < 1 / 2" | "1 / 2 < m - of_int \<lfloor>m\<rfloor>"
    | "m - of_int \<lfloor>m\<rfloor> = 1 / 2" by linarith
  then show ?thesis
  proof cases
    case 1
    then have "round_ties_even m = \<lfloor>m\<rfloor>" by (simp add: round_ties_even_def Let_def)
    then show ?thesis using a by linarith
  next
    case 2
    then have "round_ties_even m = \<lfloor>m\<rfloor> + 1" by (simp add: round_ties_even_def Let_def)
    then show ?thesis using 2 by simp
  next
    case 3
    then have "round_ties_even m = \<lfloor>m\<rfloor> \<or> round_ties_even m = \<lfloor>m\<rfloor> + 1"
      by (simp add: round_ties_even_def Let_def)
    then show ?thesis using 3 a by auto
  qed
qed

lemma floor_log2_le:
  assumes "0 < x" "x \<le> 2 powi j"
  shows "\<lfloor>log 2 x\<rfloor> \<le> j"
proof -
  have "(2::real) powr (of_int j) = 2 powi j"
    by (rule powr_real_of_int') simp_all
  then have "x \<le> 2 powr (of_int j)" using assms(2) by simp
  then have "log 2 x \<le> of_int j"
    using assms(1) by (subst log_le_iff) simp_all
  then show ?thesis by (simp add: floor_le_iff)
qed

lemma floor_log2_ge:
  assumes "2 powi j \<le> x"
  shows "j \<le> \<lfloor>log 2 x\<rfloor>"
proof -
  have pos: "0 < x" using assms power_int_2_pos [of j] by linarith
  have "(2::real) powr (of_int j) = 2 powi j"
    by (rule powr_real_of_int') simp_all
  then have "2 powr (of_int j) \<le> x" using assms by simp
  then have "of_int j \<le> log 2 x"
    using pos by (subst le_log_iff) simp_all
  then show ?thesis by (simp add: le_floor_iff)
qed

lemma round_double_le_power:
  assumes "0 \<le> x" "x \<le> 2 powi j" "- 1022 \<le> j"
  shows "round_double x \<le> 2 powi j"
proof (cases "x = 0")
  case True
  then show ?thesis by (simp add: round_double_def)
next
  case False
  then have pos: "0 < x" using assms(1) by simp
  define q where "q = quantum_exp x"
  have "\<lfloor>log 2 \<bar>x\<bar>\<rfloor> \<le> j" using floor_log2_le [OF pos assms(2)] pos by simp
  then have qj: "q \<le> j" using assms(3) by (simp add: q_def quantum_exp_def)
  define k where "k = nat (j - q)"
  have j: "j = q + int k" using qj by (simp add: k_def)
  have "x / 2 powi q \<le> 2 powi j / 2 powi q"
    using assms(2) by (simp add: divide_right_mono)
  also have "\<dots> = of_int (2 ^ k)" unfolding j by (simp add: power_int_add)
  finally have "round_ties_even (x / 2 powi q) \<le> 2 ^ k" by (rule round_ties_even_le)
  then have "(of_int (round_ties_even (x / 2 powi q)) :: real) \<le> of_int (2 ^ k)"
    by (simp only: of_int_le_iff)
  then have "of_int (round_ties_even (x / 2 powi q)) * 2 powi q \<le> of_int (2 ^ k) * (2::real) powi q"
    by (intro mult_right_mono) simp_all
  also have "\<dots> = 2 powi j" unfolding j by (simp add: power_int_add)
  finally show ?thesis using False by (simp add: round_double_def q_def)
qed

lemma round_double_ge_power:
  assumes "2 powi j \<le> x" "- 1022 \<le> j"
  shows "2 powi j \<le> round_double x"
proof -
  have pos: "0 < x" using assms(1) power_int_2_pos [of j] by linarith
  define e where "e = \<lfloor>log 2 \<bar>x\<bar>\<rfloor>"
  have je: "j \<le> e" using floor_log2_ge [OF assms(1)] pos by (simp add: e_def)
  then have q: "quantum_exp x = e - 52"
    using assms(2) unfolding quantum_exp_def e_def [symmetric] by simp
  have "of_int e \<le> log 2 x" using pos by (simp add: e_def)
  then have "2 powr (of_int e) \<le> x" using pos by (simp add: le_log_iff)
  moreover have "(2::real) powr (of_int e) = 2 powi e"
    by (rule powr_real_of_int') simp_all
  ultimately have ex: "2 powi e \<le> x" by simp
  have "(of_int (2 ^ 52) :: real) = 2 powi e / 2 powi (e - 52)"
    by (simp add: power_int_diff)
  also have "\<dots> \<le> x / 2 powi (e - 52)"
    using ex by (simp add: divide_right_mono)
  finally have "2 ^ 52 \<le> round_ties_even (x / 2 powi (e - 52))" by (rule round_ties_even_ge)
  then have "(of_int (2 ^ 52) :: real) \<le> of_int (round_ties_even (x / 2 powi (e - 52)))"
    by (simp only: of_int_le_iff)
  then have "of_int (2 ^ 52) * (2::real) powi (e - 52) \<le>
      of_int (round_ties_even (x / 2 powi (e - 52))) * 2 powi (e - 52)"
    by (intro mult_right_mono) simp_all
  moreover have "of_int (2 ^ 52) * (2::real) powi (e - 52) = 2 powi e"
    by (simp add: power_int_diff)
  moreover have "(2::real) powi j \<le> 2 powi e"
    using je by (intro power_int_increasing) simp_all
  ultimately have "2 powi j \<le>
      of_int (round_ties_even (x / 2 powi (e - 52))) * (2::real) powi (e - 52)"
    by linarith
  moreover have "round_double x =
      of_int (round_ties_even (x / 2 powi (e - 52))) * 2 powi (e - 52)"
    using pos by (simp add: round_double_def q)
  ultimately show ?thesis by simp
qed

lemma round_double_relative:
  assumes "2 powi (- 1022) \<le> x"
  shows "round_double x \<le> x * (1 + 2 powi (- 53))"
proof -
  have pos: "0 < x" using assms power_int_2_pos [of "- 1022"] by linarith
  define e where "e = \<lfloor>log 2 \<bar>x\<bar>\<rfloor>"
  have "- 1022 \<le> e" using floor_log2_ge [OF assms] pos by (simp add: e_def)
  then have q: "quantum_exp x = e - 52"
    unfolding quantum_exp_def e_def [symmetric] by simp
  have "of_int e \<le> log 2 x" using pos by (simp add: e_def)
  then have "2 powr (of_int e) \<le> x" using pos by (simp add: le_log_iff)
  moreover have "(2::real) powr (of_int e) = 2 powi e"
    by (rule powr_real_of_int') simp_all
  ultimately have ex: "2 powi e \<le> x" by simp
  have "round_double x = of_int (round_ties_even (x / 2 powi (e - 52))) * 2 powi (e - 52)"
    using pos by (simp add: round_double_def q)
  also have "\<dots> \<le> (x / 2 powi (e - 52) + 1 / 2) * 2 powi (e - 52)"
    by (intro mult_right_mono round_ties_even_near) simp
  also have "\<dots> = x + 2 powi e * 2 powi (- 53)"
    by (simp add: algebra_simps power_int_diff power_int_minus)
  also have "\<dots> \<le> x + x * 2 powi (- 53)"
    using ex by (simp add: mult_right_mono)
  finally show ?thesis by (simp add: algebra_simps)
qed


lemma round_double_nonneg: "0 \<le> x \<Longrightarrow> 0 \<le> round_double x"
  by (simp add: round_double_def round_ties_even_nonneg)

text \<open>The doubles below \<open>1\<close> end at \<open>1 - 2^-53\<close>.\<close>

lemma round_double_below_one:
  assumes "0 \<le> y" "round_double y < 1"
  shows "round_double y \<le> 1 - 2 powi (- 53)"
proof -
  consider "y \<le> 1 / 2" | "1 / 2 \<le> y" "y < 1" | "1 \<le> y" by linarith
  then show ?thesis
  proof cases
    case 1
    have "round_double y \<le> 2 powi (- 1)"
      using assms(1) 1 by (intro round_double_le_power) (simp_all add: power_int_minus)
    also have "\<dots> \<le> 1 - 2 powi (- 53)" by (simp add: power_int_minus)
    finally show ?thesis .
  next
    case 2
    define N where "N = round_ties_even (y / 2 powi (- 1 - 52))"
    have v: "round_double y = of_int N * 2 powi (- 1 - 52)"
      unfolding N_def using 2 by (intro round_double_eq) (simp_all add: power_int_minus)
    have "of_int N * 2 powi (- 1 - 52) < (1::real)" using assms(2) v by simp
    then have "(of_int N :: real) < of_int (2 ^ 53)" by (simp add: power_int_minus field_simps)
    then have "N < 2 ^ 53" by (simp only: of_int_less_iff)
    then have "N \<le> 2 ^ 53 - 1" by simp
    then have "(of_int N :: real) \<le> of_int (2 ^ 53 - 1)" by (simp only: of_int_le_iff)
    then have "of_int N * 2 powi (- 1 - 52) \<le> of_int (2 ^ 53 - 1) * (2::real) powi (- 1 - 52)"
      by (intro mult_right_mono) simp_all
    also have "\<dots> = 1 - 2 powi (- 53)" by (simp add: power_int_minus field_simps)
    finally show ?thesis using v by simp
  next
    case 3
    have "2 powi 0 \<le> round_double y"
      using 3 by (intro round_double_ge_power) simp_all
    then show ?thesis using assms(2) by simp
  qed
qed

subsection \<open>The delay and the post-processing\<close>

text \<open>
  The feedback decays: a double below \<open>1\<close> is at most \<open>1 - 2^-53\<close>, and the product
  with it, rounded, is at most \<open>1 - 2^-106\<close> times the factor (or below the normal
  range). So the feedback reaches the floor \<open>0.01\<close>, and the loop of the first version,
  which has no other exit, ends.
\<close>

lemma feedback_step_decay:
  assumes "0 \<le> c" "0 \<le> f" "f \<le> 1 - 2 powi (- 53)"
  shows "0 \<le> round_double (c * f) \<and>
         round_double (c * f) \<le> max (c * (1 - 2 powi (- 106))) (2 powi (- 1022))"
proof -
  have cf0: "0 \<le> c * f" using assms by simp
  have lo: "0 \<le> round_double (c * f)" using cf0 by (rule round_double_nonneg)
  have up: "round_double (c * f) \<le> max (c * (1 - 2 powi (- 106))) (2 powi (- 1022))"
  proof (cases "2 powi (- 1022) \<le> c * f")
    case True
    have "round_double (c * f) \<le> c * f * (1 + 2 powi (- 53))"
      using True by (rule round_double_relative)
    also have "\<dots> = c * (f * (1 + 2 powi (- 53)))" by simp
    also have "\<dots> \<le> c * ((1 - 2 powi (- 53)) * (1 + 2 powi (- 53)))"
      using assms by (intro mult_left_mono mult_right_mono) simp_all
    also have "(1 - 2 powi (- 53)) * (1 + 2 powi (- 53)) = (1 - 2 powi (- 106) :: real)"
      by (simp add: power_int_minus field_simps)
    finally show ?thesis by simp
  next
    case False
    then have "round_double (c * f) \<le> 2 powi (- 1022)"
      using cf0 by (intro round_double_le_power) simp_all
    then show ?thesis by simp
  qed
  show ?thesis using lo up by simp
qed

lemma feedback_decay:
  assumes "0 \<le> c" "0 \<le> f" "f \<le> 1 - 2 powi (- 53)"
  shows "0 \<le> ((\<lambda>c. round_double (c * f)) ^^ k) c \<and>
         ((\<lambda>c. round_double (c * f)) ^^ k) c \<le>
           max (c * (1 - 2 powi (- 106)) ^ k) (2 powi (- 1022))"
proof (induction k)
  case 0
  then show ?case using assms(1) by simp
next
  case (Suc k)
  let ?g = "\<lambda>c. round_double (c * f)"
  let ?r = "1 - 2 powi (- 106) :: real"
  have r: "0 \<le> ?r" "?r \<le> 1" by (simp_all add: power_int_minus)
  from feedback_step_decay [OF _ assms(2,3), of "(?g ^^ k) c"] Suc
  have s: "0 \<le> ?g ((?g ^^ k) c)"
    "?g ((?g ^^ k) c) \<le> max ((?g ^^ k) c * ?r) (2 powi (- 1022))"
    by simp_all
  have "(?g ^^ k) c * ?r \<le> max (c * ?r ^ k) (2 powi (- 1022)) * ?r"
    using Suc r by (intro mult_right_mono) simp_all
  also have "\<dots> \<le> max (c * ?r ^ Suc k) (2 powi (- 1022))"
  proof -
    have "(2 powi (- 1022) :: real) * ?r \<le> 2 powi (- 1022)"
      using r by (intro mult_left_le) simp_all
    then show ?thesis using r by (auto simp: max_def algebra_simps)
  qed
  finally have "max ((?g ^^ k) c * ?r) (2 powi (- 1022)) \<le> max (c * ?r ^ Suc k) (2 powi (- 1022))"
    by simp
  then show ?case using s by simp
qed

lemma feedback_reaches_floor:
  assumes "0 \<le> c" "0 \<le> f" "f \<le> 1 - 2 powi (- 53)"
  shows "\<exists>k. ((\<lambda>c. round_double (c * f)) ^^ k) c \<le> round_double 0.01"
proof -
  let ?r = "1 - 2 powi (- 106) :: real"
  have thr: "0 < round_double 0.01" "2 powi (- 1022) \<le> round_double 0.01"
    unfolding round_double_0_01 by (simp_all add: power_int_minus)
  have "?r < 1" by (simp add: power_int_minus)
  moreover have "0 < round_double 0.01 / (c + 1)" using thr assms(1) by simp
  ultimately obtain k where "?r ^ k < round_double 0.01 / (c + 1)"
    using real_arch_pow_inv by blast
  then have "(c + 1) * ?r ^ k < round_double 0.01"
    using assms(1) by (simp add: field_simps)
  moreover have "c * ?r ^ k \<le> (c + 1) * ?r ^ k"
    by (intro mult_right_mono) (simp_all add: power_int_minus)
  ultimately have "c * ?r ^ k \<le> round_double 0.01" by linarith
  then have "max (c * ?r ^ k) (2 powi (- 1022)) \<le> round_double 0.01"
    using thr by simp
  then show ?thesis
    using feedback_decay [OF assms, of k] by (intro exI [of _ k]) linarith
qed

lemma legacy_delay_taps_result:
  "legacy_delay_taps fuel ds fb inp (out, cf, tapCount) = Some (out', cf', n) \<Longrightarrow>
   tapCount \<le> n \<and> cf' \<le> round_double 0.01 \<and>
   cf' = ((\<lambda>c. round_double (c * fb)) ^^ (n - tapCount)) cf \<and>
   (\<forall>k < n - tapCount. ((\<lambda>c. round_double (c * fb)) ^^ k) cf > round_double 0.01)"
proof (induction fuel arbitrary: out cf tapCount)
  case 0
  then show ?case by simp
next
  case (Suc fuel)
  let ?f = "\<lambda>c. round_double (c * fb)"
  have sw: "(?f ^^ Suc j) c = (?f ^^ j) (?f c)" for j c
    by (simp only: funpow_Suc_right o_apply)
  show ?case
  proof (cases "cf > round_double 0.01")
    case True
    then have eq: "legacy_delay_taps fuel ds fb inp (delay_tap ds cf inp out, ?f cf, tapCount + 1)
        = Some (out', cf', n)"
      using Suc.prems by simp
    note IH = Suc.IH [OF eq]
    have tn: "tapCount + 1 \<le> n" using IH by blast
    have a: "n - tapCount = Suc (n - (tapCount + 1))" using tn by arith
    have "\<forall>k < n - tapCount. (?f ^^ k) cf > round_double 0.01"
    proof (intro allI impI)
      fix k assume k: "k < n - tapCount"
      show "(?f ^^ k) cf > round_double 0.01"
      proof (cases k)
        case 0 then show ?thesis using True by simp
      next
        case (Suc j)
        then have "j < n - (tapCount + 1)" using k by simp
        then have "(?f ^^ j) (?f cf) > round_double 0.01" using IH by blast
        then show ?thesis unfolding Suc sw .
      qed
    qed
    moreover have "cf' = (?f ^^ (n - tapCount)) cf"
      using IH unfolding a sw by blast
    moreover have "tapCount \<le> n" "cf' \<le> round_double 0.01"
      using IH tn by auto
    ultimately show ?thesis by blast
  next
    case False
    then have "(out, cf, tapCount) = (out', cf', n)"
      using Suc.prems by simp
    then show ?thesis using False by auto
  qed
qed

lemma legacy_delay_taps_ends:
  "((\<lambda>c. round_double (c * fb)) ^^ k) cf \<le> round_double 0.01 \<Longrightarrow>
   \<exists>fuel result. legacy_delay_taps fuel ds fb inp (out, cf, tapCount) = Some result"
proof (induction k arbitrary: out cf tapCount)
  case 0
  then have "legacy_delay_taps (Suc 0) ds fb inp (out, cf, tapCount) = Some (out, cf, tapCount)"
    by simp
  then show ?case by blast
next
  case (Suc k)
  let ?f = "\<lambda>c. round_double (c * fb)"
  show ?case
  proof (cases "cf > round_double 0.01")
    case True
    have "(?f ^^ k) (?f cf) \<le> round_double 0.01"
      using Suc.prems by (simp only: funpow_Suc_right o_apply)
    from Suc.IH [OF this, of "delay_tap ds cf inp out" "tapCount + 1"]
    obtain fuel result where
      "legacy_delay_taps fuel ds fb inp (delay_tap ds cf inp out, ?f cf, tapCount + 1) = Some result"
      by blast
    then have "legacy_delay_taps (Suc fuel) ds fb inp (out, cf, tapCount) = Some result"
      using True by simp
    then show ?thesis by blast
  next
    case False
    then have "legacy_delay_taps (Suc 0) ds fb inp (out, cf, tapCount) = Some (out, cf, tapCount)"
      by simp
    then show ?thesis by blast
  qed
qed

lemma legacy_delay_channel_ends:
  assumes "0 \<le> feedback" "round_double feedback < 1"
  shows "\<exists>fuel out cf n.
      legacy_delay_channel fuel buffer delayTime feedback inputData outputData = Some (out, cf, n) \<and>
      cf \<le> round_double 0.01 \<and>
      cf = ((\<lambda>c. round_double (c * round_double feedback)) ^^ n) (round_double feedback) \<and>
      (\<forall>k < n. ((\<lambda>c. round_double (c * round_double feedback)) ^^ k) (round_double feedback)
          > round_double 0.01)"
proof -
  let ?fb = "round_double feedback"
  have f0: "0 \<le> ?fb" using assms(1) by (rule round_double_nonneg)
  have f1: "?fb \<le> 1 - 2 powi (- 53)" using assms by (rule round_double_below_one)
  obtain k where "((\<lambda>c. round_double (c * ?fb)) ^^ k) ?fb \<le> round_double 0.01"
    using feedback_reaches_floor [OF f0 f0 f1] by blast
  from legacy_delay_taps_ends [OF this]
  obtain fuel result where r: "legacy_delay_taps fuel \<lfloor>delayTime * sampleRate buffer\<rfloor> ?fb inputData
      (for_range 0 (length inputData) (\<lambda>i out. out[i := get inputData i]) outputData, ?fb, 0)
      = Some result"
    by blast
  obtain out cf n where res: "result = (out, cf, n)" by (cases result) auto
  note p = legacy_delay_taps_result [OF r [unfolded res], unfolded diff_zero]
  have "legacy_delay_channel fuel buffer delayTime feedback inputData outputData = Some (out, cf, n)"
    using r res by (simp add: legacy_delay_channel_def Let_def)
  then show ?thesis using p by blast
qed

lemma delay_taps_bound:
  "tapCount \<le> maxTaps \<Longrightarrow>
   delay_taps ds fb maxTaps inp (out, cf, tapCount) = (out', cf', n) \<Longrightarrow>
   n \<le> maxTaps \<and> tapCount \<le> n \<and> (cf' \<le> round_double 0.01 \<or> n = maxTaps) \<and>
   cf' = ((\<lambda>c. round_double (c * fb)) ^^ (n - tapCount)) cf \<and>
   (\<forall>k < n - tapCount. ((\<lambda>c. round_double (c * fb)) ^^ k) cf > round_double 0.01)"
proof (induction ds fb maxTaps inp "(out, cf, tapCount)" arbitrary: out cf tapCount
    rule: delay_taps.induct)
  case (1 ds fb maxTaps inp out cf tapCount)
  let ?f = "\<lambda>c. round_double (c * fb)"
  have sw: "(?f ^^ Suc j) c = (?f ^^ j) (?f c)" for j c
    by (simp only: funpow_Suc_right o_apply)
  show ?case
  proof (cases "cf > round_double 0.01 \<and> tapCount < maxTaps")
    case True
    have "delay_taps ds fb maxTaps inp (out, cf, tapCount) =
        delay_taps ds fb maxTaps inp (delay_tap ds cf inp out, ?f cf, tapCount + 1)"
      using True by (subst delay_taps.simps) (simp only: if_True simp_thms)
    then have eq: "delay_taps ds fb maxTaps inp (delay_tap ds cf inp out, ?f cf, tapCount + 1)
        = (out', cf', n)"
      using "1.prems"(2) by simp
    from True have le: "tapCount + 1 \<le> maxTaps" by simp
    note IH = "1.hyps" [OF True le eq]
    have tn: "tapCount + 1 \<le> n" using IH by blast
    have a: "n - tapCount = Suc (n - (tapCount + 1))" using tn by arith
    have "\<forall>k < n - tapCount. (?f ^^ k) cf > round_double 0.01"
    proof (intro allI impI)
      fix k assume k: "k < n - tapCount"
      show "(?f ^^ k) cf > round_double 0.01"
      proof (cases k)
        case 0 then show ?thesis using True by simp
      next
        case (Suc j)
        then have "j < n - (tapCount + 1)" using k by simp
        then have "(?f ^^ j) (?f cf) > round_double 0.01" using IH by blast
        then show ?thesis unfolding Suc sw .
      qed
    qed
    moreover have "cf' = (?f ^^ (n - tapCount)) cf"
      using IH unfolding a sw by blast
    moreover have "n \<le> maxTaps" "tapCount \<le> n" "cf' \<le> round_double 0.01 \<or> n = maxTaps"
      using IH tn by auto
    ultimately show ?thesis by blast
  next
    case False
    have "delay_taps ds fb maxTaps inp (out, cf, tapCount) = (out, cf, tapCount)"
      using False by (subst delay_taps.simps) (simp only: if_False simp_thms)
    then have "(out, cf, tapCount) = (out', cf', n)"
      using "1.prems"(2) by simp
    then show ?thesis using False "1.prems"(1) by auto
  qed
qed

lemma feedback_unit:
  assumes "0 \<le> fb" "fb \<le> 1" "0 \<le> cf" "cf \<le> 1"
  shows "0 \<le> ((\<lambda>c. round_double (c * fb)) ^^ k) cf \<and> ((\<lambda>c. round_double (c * fb)) ^^ k) cf \<le> 1"
proof (induction k)
  case 0
  then show ?case using assms by simp
next
  case (Suc k)
  let ?c = "((\<lambda>c. round_double (c * fb)) ^^ k) cf"
  have "0 \<le> ?c * fb" using Suc assms by simp
  moreover have "?c * fb \<le> 1" using Suc assms by (simp add: mult_le_one)
  ultimately show ?case using round_double_unit [of "?c * fb"] by simp
qed

text \<open>
  Claim C4, as amended. For a feedback amount in \<open>[0, 1)\<close> the tap loop of the delay
  ends, in both versions of the library. In the enhanced processor it stops as soon as
  the feedback is no longer above \<open>0.01\<close> or the cap is reached, and the cap depends on
  the duration of the buffer alone: \<open>3\<close> taps for a buffer longer than two seconds,
  \<open>10\<close> otherwise. In the first version there is no cap: the loop stops when the
  feedback is no longer above \<open>0.01\<close>, and not before. The feedback of tap \<open>k\<close> is
  the amount multiplied \<open>k\<close> times by itself, each product rounded to a double; it
  stays between \<open>0\<close> and \<open>1\<close>. The amount that reaches the loop is the double
  nearest to the given real: the first version ends when that double is below \<open>1\<close>.
\<close>

theorem delay_channel_taps:
  assumes "0 \<le> feedback" and "feedback < 1"
  shows "(case delay_channel buffer delayTime feedback inputData outputData of
      (out, currentFeedback, tapCount) \<Rightarrow>
        tapCount \<le> (if buf_duration buffer > 2.0 then 3 else 10) \<and>
        (currentFeedback \<le> round_double 0.01 \<or>
         tapCount = (if buf_duration buffer > 2.0 then 3 else 10)) \<and>
        currentFeedback =
          ((\<lambda>c. round_double (c * round_double feedback)) ^^ tapCount) (round_double feedback) \<and>
        (\<forall>k < tapCount.
           ((\<lambda>c. round_double (c * round_double feedback)) ^^ k) (round_double feedback)
             > round_double 0.01) \<and>
        0 \<le> currentFeedback \<and> currentFeedback \<le> 1) \<and>
     (round_double feedback < 1 \<longrightarrow>
        (\<exists>fuel out currentFeedback tapCount.
           legacy_delay_channel fuel buffer delayTime feedback inputData outputData =
             Some (out, currentFeedback, tapCount) \<and>
           currentFeedback \<le> round_double 0.01 \<and>
           currentFeedback =
             ((\<lambda>c. round_double (c * round_double feedback)) ^^ tapCount) (round_double feedback) \<and>
           (\<forall>k < tapCount.
              ((\<lambda>c. round_double (c * round_double feedback)) ^^ k) (round_double feedback)
                > round_double 0.01)))"
proof -
  let ?fb = "round_double feedback"
  obtain out cf n where r: "delay_channel buffer delayTime feedback inputData outputData = (out, cf, n)"
    by (cases "delay_channel buffer delayTime feedback inputData outputData") auto
  then have "delay_taps \<lfloor>delayTime * sampleRate buffer\<rfloor> ?fb (delay_maxTaps buffer) inputData
      (for_range 0 (length inputData) (\<lambda>i out. out[i := get inputData i]) outputData, ?fb, 0)
      = (out, cf, n)"
    by (simp add: delay_channel_def Let_def)
  from delay_taps_bound [OF le0 this]
  have b: "n \<le> delay_maxTaps buffer" "cf \<le> round_double 0.01 \<or> n = delay_maxTaps buffer"
    "cf = ((\<lambda>c. round_double (c * ?fb)) ^^ n) ?fb"
    "\<forall>k < n. ((\<lambda>c. round_double (c * ?fb)) ^^ k) ?fb > round_double 0.01"
    by auto
  have u: "0 \<le> ?fb \<and> ?fb \<le> 1"
    using assms by (intro round_double_unit) simp_all
  then have "0 \<le> cf \<and> cf \<le> 1"
    unfolding b(3) by (intro feedback_unit) simp_all
  then have enhanced: "(case delay_channel buffer delayTime feedback inputData outputData of
      (out, currentFeedback, tapCount) \<Rightarrow>
        tapCount \<le> (if buf_duration buffer > 2.0 then 3 else 10) \<and>
        (currentFeedback \<le> round_double 0.01 \<or>
         tapCount = (if buf_duration buffer > 2.0 then 3 else 10)) \<and>
        currentFeedback =
          ((\<lambda>c. round_double (c * round_double feedback)) ^^ tapCount) (round_double feedback) \<and>
        (\<forall>k < tapCount.
           ((\<lambda>c. round_double (c * round_double feedback)) ^^ k) (round_double feedback)
             > round_double 0.01) \<and>
        0 \<le> currentFeedback \<and> currentFeedback \<le> 1)"
    unfolding r using b by (simp add: delay_maxTaps_def)
  show ?thesis
    using enhanced legacy_delay_channel_ends [OF assms(1)] by blast
qed

lemma round_double_half_power: "k \<le> 1074 \<Longrightarrow> round_double ((1 / 2) ^ k) = (1 / 2) ^ k"
proof -
  assume "k \<le> 1074"
  then have "round_double (of_int 1 * 2 powi (- int k)) = of_int 1 * 2 powi (- int k)"
    by (intro round_double_exact) simp_all
  then show ?thesis by (simp add: power_int_minus power_one_over inverse_eq_divide)
qed

lemma round_double_three_quarters_power:
  assumes "k \<le> 33"
  shows "round_double ((3 / 4) ^ k) = (3 / 4) ^ k"
proof -
  have "(3::int) ^ k \<le> 3 ^ 33" using assms by (intro power_increasing) simp_all
  also have "\<dots> < 2 ^ 53" by simp
  finally have "\<bar>(3::int) ^ k\<bar> < 2 ^ 53" by simp
  then have "round_double (of_int (3 ^ k) * 2 powi (- int (2 * k))) =
      of_int (3 ^ k) * 2 powi (- int (2 * k))"
    using assms by (intro round_double_exact) simp_all
  moreover have "of_int (3 ^ k) * 2 powi (- int (2 * k)) = ((3 / 4) ^ k :: real)"
  proof -
    have "(2::real) powi (int (2 * k)) = 2 ^ (2 * k)" by (rule power_int_of_nat)
    also have "\<dots> = 4 ^ k" by (simp add: power_mult)
    finally have "(2::real) powi (- int (2 * k)) = 1 / 4 ^ k"
      by (simp only: power_int_minus inverse_eq_divide)
    then show ?thesis by (simp add: power_divide)
  qed
  ultimately show ?thesis by simp
qed

lemma feedback_half:
  "k \<le> 1000 \<Longrightarrow>
   ((\<lambda>c. round_double (c * round_double (1 / 2))) ^^ k) (round_double (1 / 2)) = (1 / 2) ^ (k + 1)"
proof (induction k)
  case 0
  then show ?case using round_double_half_power [of 1] by simp
next
  case (Suc k)
  let ?f = "\<lambda>c. round_double (c * round_double (1 / 2))"
  have h: "round_double (1 / 2) = 1 / 2" using round_double_half_power [of 1] by simp
  have IH: "(?f ^^ k) (round_double (1 / 2)) = (1 / 2) ^ (k + 1)" using Suc by simp
  have "(?f ^^ Suc k) (round_double (1 / 2)) = round_double ((1 / 2) ^ (k + 1) * round_double (1 / 2))"
    by (simp only: funpow.simps o_apply IH)
  also have "(1 / 2) ^ (k + 1) * round_double (1 / 2) = (1 / 2 :: real) ^ (Suc k + 1)"
    unfolding h by simp
  also have "round_double ((1 / 2) ^ (Suc k + 1)) = (1 / 2) ^ (Suc k + 1)"
    using Suc.prems by (intro round_double_half_power) simp
  finally show ?case .
qed

lemma feedback_three_quarters:
  "k \<le> 32 \<Longrightarrow>
   ((\<lambda>c. round_double (c * round_double (3 / 4))) ^^ k) (round_double (3 / 4)) = (3 / 4) ^ (k + 1)"
proof (induction k)
  case 0
  then show ?case using round_double_three_quarters_power [of 1] by simp
next
  case (Suc k)
  let ?f = "\<lambda>c. round_double (c * round_double (3 / 4))"
  have h: "round_double (3 / 4) = 3 / 4" using round_double_three_quarters_power [of 1] by simp
  have IH: "(?f ^^ k) (round_double (3 / 4)) = (3 / 4) ^ (k + 1)" using Suc by simp
  have "(?f ^^ Suc k) (round_double (3 / 4)) = round_double ((3 / 4) ^ (k + 1) * round_double (3 / 4))"
    by (simp only: funpow.simps o_apply IH)
  also have "(3 / 4) ^ (k + 1) * round_double (3 / 4) = (3 / 4 :: real) ^ (Suc k + 1)"
    unfolding h by simp
  also have "round_double ((3 / 4) ^ (Suc k + 1)) = (3 / 4) ^ (Suc k + 1)"
    using Suc.prems by (intro round_double_three_quarters_power) simp
  finally show ?case .
qed

theorem delay_channel_taps_witness:
  "(0::real) \<le> 1 / 2 \<and> (1 / 2 :: real) < 1 \<and>
   snd (snd (delay_channel \<lparr>buf_length = 24000, sampleRate = 8000, channelData = [replicate 24000 (Fin 1)]\<rparr>
        0.25 (1 / 2) (replicate 24000 (Fin 1)) (replicate 28000 (Fin 0)))) = 3 \<and>
   round_double (1 / 2) < 1 \<and>
   (\<exists>fuel result.
      legacy_delay_channel fuel
        \<lparr>buf_length = 24000, sampleRate = 8000, channelData = [replicate 24000 (Fin 1)]\<rparr>
        0.25 (1 / 2) (replicate 24000 (Fin 1)) (replicate 28000 (Fin 0)) = Some result)"
proof -
  let ?b = "\<lparr>buf_length = 24000, sampleRate = 8000, channelData = [replicate 24000 (Fin 1)]\<rparr>"
  obtain out cf n where r: "delay_channel ?b 0.25 (1 / 2) (replicate 24000 (Fin 1)) (replicate 28000 (Fin 0)) = (out, cf, n)"
    by (cases "delay_channel ?b 0.25 (1 / 2) (replicate 24000 (Fin 1)) (replicate 28000 (Fin 0))") auto
  have d: "buf_duration ?b > 2.0" by (simp add: buf_duration_def)
  have h: "(0::real) \<le> 1 / 2" "(1 / 2 :: real) < 1" by simp_all
  note t = delay_channel_taps [OF h, where buffer = ?b and delayTime = "0.25"
      and inputData = "replicate 24000 (Fin 1)" and outputData = "replicate 28000 (Fin 0)",
      unfolded r prod.case if_P [OF d]]
  have hf: "round_double (1 / 2) < 1" using round_double_half_power [of 1] by simp
  from t hf have legacy: "\<exists>fuel result.
      legacy_delay_channel fuel ?b 0.25 (1 / 2) (replicate 24000 (Fin 1)) (replicate 28000 (Fin 0)) =
        Some result"
    by blast
  from t have 1: "n \<le> 3" and 2: "cf \<le> round_double 0.01 \<or> n = 3"
    and 3: "cf = ((\<lambda>c. round_double (c * round_double (1 / 2))) ^^ n) (round_double (1 / 2))"
    by blast+
  have 4: "cf = (1 / 2) ^ (n + 1)" using 3 1 by (simp add: feedback_half)
  have "n = 3"
  proof (rule ccontr)
    assume "n \<noteq> 3"
    then have c: "cf \<le> round_double 0.01" and "n < 3" using 1 2 by auto
    then have "n = 0 \<or> n = 1 \<or> n = 2" by arith
    then show False using c 4 by (auto simp: round_double_threshold power2_eq_square power3_eq_cube)
  qed
  then show ?thesis using r hf legacy by simp
qed

lemma fold_state_update:
  "n \<le> length xs \<Longrightarrow>
   fold (\<lambda>i out. out[i := g (get out i)]) [0..<n] xs = map g (take n xs) @ drop n xs"
proof (induction n)
  case 0
  then show ?case by simp
next
  case (Suc n)
  then have n: "n < length xs" by simp
  have "fold (\<lambda>i out. out[i := g (get out i)]) [0..<Suc n] xs =
        (map g (take n xs) @ drop n xs)[n := g (get (map g (take n xs) @ drop n xs) n)]"
    using Suc by simp
  also have "get (map g (take n xs) @ drop n xs) n = xs ! n"
    using n by (simp add: get_def nth_append)
  also have "(map g (take n xs) @ drop n xs)[n := g (xs ! n)] = map g (take (Suc n) xs) @ drop (Suc n) xs"
    using n by (simp add: list_update_append take_Suc_conv_app_nth Cons_nth_drop_Suc [symmetric])
  finally show ?case .
qed

lemma for_range_state_update:
  "for_range 0 (length xs) (\<lambda>i out. out[i := g (get out i)]) xs = map g xs"
  by (simp add: for_range_def fold_state_update)

lemma times_Fin_1 [simp]: "x * Fin 1 = x"
  by (cases x) simp_all

text \<open>
  Claim C7. For a feature set with positive energy and positive spectral centroid, the
  energy ratio and the spectral ratio are exactly \<open>1\<close>, and the two steps after the
  envelope leave every sample as it is.
\<close>

theorem postProcess_identity:
  assumes "energy features = Fin e" and "0 < e"
    and "spectralCentroid features = Fin c" and "0 < c"
  shows "energyRatio features = Fin 1 \<and> spectralRatio features = Fin 1 \<and>
         postProcess features outputData = outputData"
proof -
  have e: "energyRatio features = Fin 1"
    using assms(1,2) by (simp add: energyRatio_def)
  have c: "spectralRatio features = Fin 1"
    using assms(3,4) by (simp add: spectralRatio_def)
  have "for_range 0 (length outputData)
          (\<lambda>i out. out[i := get out i * energyRatio features]) outputData =
        map (\<lambda>x. x * energyRatio features) outputData"
    by (rule for_range_state_update)
  then show ?thesis
    using e c by (simp add: postProcess_def applySpectralAdjustment_def)
qed

theorem postProcess_identity_witness:
  "postProcess
     \<lparr>attackTime = Fin 0.01, decayTime = Fin 0.05, sustainLevel = Fin 0.2,
      releaseTime = Fin 0.1, energy = Fin 0.5, spectralCentroid = Fin 1000,
      peakValue = Fin 0.9, peakIndex = 100, duration = 0.5, dynamicRange = Fin 1.8,
      transientDensity = Fin 2, significantPeaks = []\<rparr>
     [Fin 0.2, Fin (- 0.4), NaN] = [Fin 0.2, Fin (- 0.4), NaN]"
  using postProcess_identity [where e = "0.5" and c = 1000 and features =
      "\<lparr>attackTime = Fin 0.01, decayTime = Fin 0.05, sustainLevel = Fin 0.2,
        releaseTime = Fin 0.1, energy = Fin 0.5, spectralCentroid = Fin 1000,
        peakValue = Fin 0.9, peakIndex = 100, duration = 0.5, dynamicRange = Fin 1.8,
        transientDensity = Fin 2, significantPeaks = []\<rparr>"
      and outputData = "[Fin 0.2, Fin (- 0.4), NaN]"]
  by simp

subsection \<open>Classification\<close>

text \<open>
  Claim C2. The classification is the threshold rule on the number of significant peaks
  and the duration, and so a function of that pair alone.
\<close>

theorem isLikelyLoop_threshold:
  "isLikelyLoop features =
     spec_isLoop (length (significantPeaks features)) (duration features)"
  by (simp add: isLikelyLoop_def spec_isLoop_def)

subsection \<open>A short buffer with many peaks\<close>


lemma extractFeatures_fields:
  "0 < numberOfChannels b \<Longrightarrow>
   \<exists>f. extractFeatures b = Inr f \<and>
       significantPeaks f = findSignificantPeaks (channelData b ! 0) (sampleRate b) \<and>
       duration f = buf_duration b"
  by (simp add: extractFeatures_def Let_def case_prod_beta)

lemma maxValue_constant:
  "n \<le> N \<Longrightarrow>
   fold (\<lambda>i m. Math_max m (Math_abs (get (replicate N (Fin 1)) i))) [0..<n] (Fin 0) =
     (if n = 0 then Fin 0 else Fin 1)"
  by (induction n) (simp_all add: get_def)

lemma peaks_constant:
  "length (findSignificantPeaks (replicate 404 (Fin 1)) 8000) = 4"
proof -
  let ?d = "replicate 404 (Fin 1)"
  have w: "nat \<lfloor>(8000::real) * 0.01\<rfloor> = 80" by simp
  have m: "for_range 0 (length ?d) (\<lambda>i m. Math_max m (Math_abs (get ?d i))) (Fin 0) = Fin 1"
    using maxValue_constant [of 404 404] by (simp add: for_range_def)
  have win: "list_all (\<lambda>j. \<not> (j \<noteq> i \<and> Fin 1 < Math_abs (get ?d j))) [i - 80..<i + 80]" for i
    by (simp add: list_all_iff get_def)
  have step: "i + 80 < 404 \<Longrightarrow> peaks_from ?d 8000 80 (Fin 1) i =
      \<lparr>pk_index = int i, pk_value = Fin 1, pk_time = Fin (real i) / Fin 8000\<rparr>
        # peaks_from ?d 8000 80 (Fin 1) (i + 80 + 1)" for i
    by (subst peaks_from.simps) (simp add: get_def Let_def list_all_iff)
  have stop: "\<not> i + 80 < 404 \<Longrightarrow> peaks_from ?d 8000 80 (Fin 1) i = []" for i
    by (subst peaks_from.simps) simp
  have "length (peaks_from ?d 8000 80 (Fin 1) 80) = 4"
    by (simp add: step stop)
  then show ?thesis
    unfolding findSignificantPeaks_def Let_def w m .
qed

subsection \<open>The number of taps of the delay\<close>

text \<open>
  The rounding decides the number of taps. The double nearest to \<open>0.1\<close> is above
  \<open>0.1\<close>, and its rounded square is the double after the one nearest to \<open>0.01\<close>: with the
  feedback \<open>0.1\<close> the loop makes two taps, where exact arithmetic (\<open>0.1 * 0.1 = 0.01\<close>, not
  above \<open>0.01\<close>) would make one.
\<close>

lemma delay_channel_rounded_feedback:
  "snd (snd (delay_channel buffer delayTime 0.1 inputData outputData)) = 2"
proof -
  let ?a = "3602879701896397 / 36028797018963968 :: real"
  let ?b = "1441151880758559 / 144115188075855872 :: real"
  let ?c = "4611686018427389 / 4611686018427387904 :: real"
  define ds where "ds = \<lfloor>delayTime * sampleRate buffer\<rfloor>"
  define M where "M = delay_maxTaps buffer"
  have M: "0 < M" "0 + 1 < M" by (simp_all add: M_def delay_maxTaps_def)
  have a: "?a > round_double 0.01" unfolding round_double_0_01 by simp
  have b: "?b > round_double 0.01" unfolding round_double_0_01 by simp
  have c: "\<not> ?c > round_double 0.01" unfolding round_double_0_01 by simp
  have 1: "delay_taps ds ?a M inputData (out, ?a, 0) =
      delay_taps ds ?a M inputData (delay_tap ds ?a inputData out, ?b, 0 + 1)" for out
    by (subst delay_taps.simps)
       (simp only: a M simp_thms if_True round_double_0_1_squared)
  have 2: "delay_taps ds ?a M inputData (out, ?b, 0 + 1) =
      delay_taps ds ?a M inputData (delay_tap ds ?b inputData out, ?c, 0 + 1 + 1)" for out
    by (subst delay_taps.simps)
       (simp only: b M simp_thms if_True round_double_0_1_cubed)
  have 3: "delay_taps ds ?a M inputData (out, ?c, 0 + 1 + 1) = (out, ?c, 0 + 1 + 1)" for out
    by (subst delay_taps.simps) (simp only: c simp_thms if_False)
  have "delay_channel buffer delayTime 0.1 inputData outputData =
      delay_taps ds ?a M inputData
        (for_range 0 (length inputData) (\<lambda>i out. out[i := get inputData i]) outputData, ?a, 0)"
    unfolding delay_channel_def Let_def ds_def M_def round_double_0_1 ..
  then show ?thesis
    unfolding 1 2 3 by simp
qed

text \<open>
  The first version of the library: with the feedback \<open>0.75\<close> the loop ends after
  sixteen taps (every product is a double: \<open>3^k / 4^k\<close> with \<open>3^k < 2^53\<close>), and with
  the feedback \<open>1\<close> it does not end.
\<close>

lemma legacy_three_quarters:
  "k \<le> 16 \<Longrightarrow>
   \<exists>out'. legacy_delay_taps (17 - k) ds (3 / 4) inp (out, (3 / 4) ^ (k + 1), k) =
     Some (out', (3 / 4) ^ 17, 16)"
proof (induction "16 - k" arbitrary: k out)
  case 0
  then have k: "k = 16" by simp
  have "\<not> (3 / 4 :: real) ^ 17 > round_double 0.01"
    unfolding round_double_0_01 by (simp add: power_divide)
  then show ?case unfolding k by (simp add: numeral_eq_Suc)
next
  case (Suc d)
  then have k: "k < 16" and d: "d = 16 - (k + 1)" and k1: "k + 1 \<le> 16" by simp_all
  have f: "17 - k = Suc (17 - (k + 1))" using k by simp
  have "(3 / 4 :: real) ^ 16 \<le> (3 / 4) ^ (k + 1)"
    using k by (intro power_decreasing) simp_all
  moreover have "round_double 0.01 < (3 / 4 :: real) ^ 16"
    unfolding round_double_0_01 by (simp add: power_divide)
  ultimately have gt: "(3 / 4 :: real) ^ (k + 1) > round_double 0.01" by simp
  have "round_double ((3 / 4) ^ (k + 1 + 1)) = (3 / 4) ^ (k + 1 + 1)"
    using k by (intro round_double_three_quarters_power) simp
  then have nx: "round_double ((3 / 4) ^ (k + 1) * (3 / 4)) = (3 / 4) ^ (k + 1 + 1)"
    by simp
  from Suc.hyps(1) [OF d k1, of "delay_tap ds ((3 / 4) ^ (k + 1)) inp out"]
  obtain out' where "legacy_delay_taps (17 - (k + 1)) ds (3 / 4) inp
      (delay_tap ds ((3 / 4) ^ (k + 1)) inp out, (3 / 4) ^ (k + 1 + 1), k + 1) =
      Some (out', (3 / 4) ^ 17, 16)"
    by blast
  then have "legacy_delay_taps (17 - k) ds (3 / 4) inp (out, (3 / 4) ^ (k + 1), k) =
      Some (out', (3 / 4) ^ 17, 16)"
    unfolding f legacy_delay_taps.simps nx using gt by (simp only: if_True)
  then show ?case by blast
qed

lemma legacy_delay_no_end:
  "legacy_delay_taps fuel ds 1 inp (out, 1, k) = None"
proof (induction fuel arbitrary: out k)
  case 0
  show ?case by simp
next
  case (Suc fuel)
  have "round_double 0.01 < 1" unfolding round_double_0_01 by simp
  then show ?case using Suc by (simp add: round_double_one)
qed

text \<open>
  Claim C4 as stated fails where "loop" is the classification: a buffer of 404 samples at
  8000 Hz (a twentieth of a second) with four significant peaks is classified as a loop,
  and the delay with feedback \<open>0.75\<close> makes ten taps on it. It also fails for the
  first version of the library, whose loop has no cap: there the same call makes sixteen
  taps.
\<close>

theorem delay_taps_loop_counterexample:
  "map_sum id isLikelyLoop
     (extractFeatures \<lparr>buf_length = 404, sampleRate = 8000,
                       channelData = [replicate 404 (Fin 1)]\<rparr>) = Inr True \<and>
   snd (snd (delay_channel \<lparr>buf_length = 404, sampleRate = 8000,
                            channelData = [replicate 404 (Fin 1)]\<rparr>
               0.25 0.75 (replicate 404 (Fin 1)) (replicate 8404 (Fin 0)))) = 10 \<and>
   map_option (\<lambda>s. snd (snd s))
     (legacy_delay_channel 17 \<lparr>buf_length = 404, sampleRate = 8000,
                                channelData = [replicate 404 (Fin 1)]\<rparr>
        0.25 0.75 (replicate 404 (Fin 1)) (replicate 8404 (Fin 0))) = Some 16"
proof -
  let ?b = "\<lparr>buf_length = 404, sampleRate = 8000, channelData = [replicate 404 (Fin 1)]\<rparr>"
  let ?in = "replicate 404 (Fin 1)"
  let ?out = "replicate 8404 (Fin 0)"
  obtain f where f: "extractFeatures ?b = Inr f"
    "significantPeaks f = findSignificantPeaks (channelData ?b ! 0) (sampleRate ?b)"
    using extractFeatures_fields [of ?b] by (auto simp: numberOfChannels_def)
  have "isLikelyLoop f"
    using f(2) peaks_constant by (simp add: isLikelyLoop_def)
  then have 1: "map_sum id isLikelyLoop (extractFeatures ?b) = Inr True"
    using f(1) by simp
  have q: "round_double (3 / 4) = 3 / 4"
    using round_double_three_quarters_power [of 1] by simp
  have cap: "delay_maxTaps ?b = 10"
    by (simp add: delay_maxTaps_def buf_duration_def)
  obtain out cf n where r: "delay_channel ?b 0.25 0.75 ?in ?out = (out, cf, n)"
    by (cases "delay_channel ?b 0.25 0.75 ?in ?out") auto
  then have "delay_taps \<lfloor>0.25 * sampleRate ?b\<rfloor> (3 / 4) 10 ?in
      (for_range 0 (length ?in) (\<lambda>i out. out[i := get ?in i]) ?out, 3 / 4, 0) = (out, cf, n)"
    by (simp add: delay_channel_def Let_def cap q)
  from delay_taps_bound [OF le0 this, unfolded diff_zero]
  have n: "n \<le> 10" and stop: "cf \<le> round_double 0.01 \<or> n = 10"
    and cf: "cf = ((\<lambda>c. round_double (c * (3 / 4))) ^^ n) (3 / 4)"
    by blast+
  have "cf = (3 / 4) ^ (n + 1)"
    unfolding cf using feedback_three_quarters [of n] n by (simp add: q)
  moreover have "(3 / 4 :: real) ^ 11 \<le> (3 / 4) ^ (n + 1)"
    using n by (intro power_decreasing) simp_all
  moreover have "round_double 0.01 < (3 / 4 :: real) ^ 11"
    unfolding round_double_0_01 by (simp add: power_divide)
  ultimately have "\<not> cf \<le> round_double 0.01" by simp
  then have "n = 10" using stop by blast
  then have 2: "snd (snd (delay_channel ?b 0.25 0.75 ?in ?out)) = 10"
    using r by simp
  from legacy_three_quarters [of 0 "\<lfloor>0.25 * sampleRate ?b\<rfloor>" ?in
      "for_range 0 (length ?in) (\<lambda>i out. out[i := get ?in i]) ?out"]
  obtain out' where "legacy_delay_taps 17 \<lfloor>0.25 * sampleRate ?b\<rfloor> (3 / 4) ?in
      (for_range 0 (length ?in) (\<lambda>i out. out[i := get ?in i]) ?out, 3 / 4, 0) =
      Some (out', (3 / 4) ^ 17, 16)"
    by auto
  then have 3: "map_option (\<lambda>s. snd (snd s)) (legacy_delay_channel 17 ?b 0.25 0.75 ?in ?out) = Some 16"
    by (simp add: legacy_delay_channel_def Let_def q)
  show ?thesis using 1 2 3 by (intro conjI)
qed

subsection \<open>Pitch shift\<close>

lemma fold_cond_update_length:
  "length (fold (\<lambda>i out. if c i then out[i := f i] else out) is out) = length out"
  by (induction "is" arbitrary: out) auto

lemma fold_cond_update_nth:
  "j < length out \<Longrightarrow> distinct is \<Longrightarrow>
   fold (\<lambda>i out. if c i then out[i := f i] else out) is out ! j =
     (if j \<in> set is \<and> c j then f j else out ! j)"
proof (induction "is" arbitrary: out)
  case Nil
  then show ?case by simp
next
  case (Cons a "is")
  show ?case
  proof (cases "c a")
    case True
    have "fold (\<lambda>i out. if c i then out[i := f i] else out) (a # is) out ! j =
          (if j \<in> set is \<and> c j then f j else out[a := f a] ! j)"
      using Cons True by simp
    also have "\<dots> = (if j \<in> set (a # is) \<and> c j then f j else out ! j)"
      using True Cons.prems(1) by (cases "a = j") auto
    finally show ?thesis .
  next
    case False
    then show ?thesis using Cons by auto
  qed
qed



lemma Math_pow2_cases: "Math_pow2 e = PosInf \<or> (\<exists>r. Math_pow2 e = Fin r \<and> 0 \<le> r)"
  by (simp add: Math_pow2_def)

lemma pitchShift_channel_fold:
  "pitchShift_channel pitchRatio inputData outputData =
     fold (\<lambda>i out.
        if Math_floor (Fin (real i) * pitchRatio) + Fin 1 < Fin (real (length inputData)) \<or>
           Math_floor (Fin (real i) * pitchRatio) < Fin (real (length inputData))
        then out[i :=
          (if Math_floor (Fin (real i) * pitchRatio) + Fin 1 < Fin (real (length inputData))
           then get_js inputData (Math_floor (Fin (real i) * pitchRatio))
                  * (Fin 1 - (Fin (real i) * pitchRatio - Math_floor (Fin (real i) * pitchRatio)))
                + get_js inputData (Math_floor (Fin (real i) * pitchRatio) + Fin 1)
                  * (Fin (real i) * pitchRatio - Math_floor (Fin (real i) * pitchRatio))
           else get_js inputData (Math_floor (Fin (real i) * pitchRatio)))]
        else out) [0..<length outputData] outputData"
  unfolding pitchShift_channel_def for_range_def Let_def
  by (rule arg_cong [where f = "\<lambda>b. fold b _ _"]) (auto simp: fun_eq_iff)

lemma pitchShift_channel_length [simp]:
  "length (pitchShift_channel pitchRatio inputData outputData) = length outputData"
  unfolding pitchShift_channel_fold by (rule fold_cond_update_length)

lemma pitchShift_channel_overflow:
  "pitchShift_channel PosInf inputData outputData = outputData"
  unfolding pitchShift_channel_def Let_def
  by (rule for_range_fixed) simp

lemma pitchShift_channel_nth:
  assumes "i < length outputData" and "0 \<le> r"
  shows "pitchShift_channel (Fin r) inputData outputData ! i =
     (let readIndex = real i * r;
          readIndex1 = nat \<lfloor>readIndex\<rfloor>;
          fraction = readIndex - real readIndex1
      in if readIndex1 + 1 < length inputData
         then inputData ! readIndex1 * Fin (1 - fraction)
              + inputData ! (readIndex1 + 1) * Fin fraction
         else if readIndex1 < length inputData then inputData ! readIndex1
         else outputData ! i)"
proof -
  let ?k = "\<lfloor>real i * r\<rfloor>"
  have k0: "0 \<le> ?k" using assms(2) by simp
  have rk: "real (nat ?k) = of_int ?k" using k0 by simp
  have c1: "of_int ?k + 1 < real (length inputData) \<longleftrightarrow> nat ?k + 1 < length inputData"
    using k0 by linarith
  have c2: "of_int ?k < real (length inputData) \<longleftrightarrow> nat ?k < length inputData"
    using k0 by linarith
  have g1: "get_js inputData (Fin (of_int ?k)) =
      (if nat ?k < length inputData then inputData ! nat ?k else NaN)"
    using k0 by simp
  have "\<lfloor>(of_int ?k :: real) + 1\<rfloor> = ?k + 1" by simp
  then have g2: "get_js inputData (Fin (of_int ?k + 1)) =
      (if nat ?k + 1 < length inputData then inputData ! (nat ?k + 1) else NaN)"
    using k0 by (simp add: nat_add_distrib)
  have ri: "Fin (real i) * Fin r = Fin (real i * r)" by simp
  have fl: "Math_floor (Fin (real i * r)) = Fin (of_int ?k)" by simp
  have p1: "Fin (of_int ?k) + Fin 1 = Fin (of_int ?k + 1)" by simp
  have fr: "Fin (real i * r) - Fin (of_int ?k) = Fin (real i * r - of_int ?k)"
    by (simp add: minus_jsnum_def)
  have om: "Fin 1 - Fin (real i * r - of_int ?k) = Fin (1 - (real i * r - of_int ?k))"
    by (simp add: minus_jsnum_def)
  have "pitchShift_channel (Fin r) inputData outputData ! i =
      (if Math_floor (Fin (real i) * Fin r) + Fin 1 < Fin (real (length inputData)) \<or>
          Math_floor (Fin (real i) * Fin r) < Fin (real (length inputData))
       then (if Math_floor (Fin (real i) * Fin r) + Fin 1 < Fin (real (length inputData))
           then get_js inputData (Math_floor (Fin (real i) * Fin r))
                  * (Fin 1 - (Fin (real i) * Fin r - Math_floor (Fin (real i) * Fin r)))
                + get_js inputData (Math_floor (Fin (real i) * Fin r) + Fin 1)
                  * (Fin (real i) * Fin r - Math_floor (Fin (real i) * Fin r))
           else get_js inputData (Math_floor (Fin (real i) * Fin r)))
       else outputData ! i)"
    unfolding pitchShift_channel_fold
    using assms(1) by (subst fold_cond_update_nth) simp_all
  also have "\<dots> =
      (if nat ?k + 1 < length inputData \<or> nat ?k < length inputData
       then (if nat ?k + 1 < length inputData
           then inputData ! nat ?k * Fin (1 - (real i * r - of_int ?k))
                + inputData ! (nat ?k + 1) * Fin (real i * r - of_int ?k)
           else inputData ! nat ?k)
       else outputData ! i)"
    unfolding ri fl p1 fr om less_jsnum.simps c1 c2 g1 g2 by simp
  finally show ?thesis
    by (simp add: Let_def rk)
qed











subsection \<open>Significant peaks\<close>

lemma not_PosInf_less [simp]: "\<not> PosInf < v"
  by (cases v) simp_all

lemma not_NaN_less [simp]: "\<not> NaN < v" "\<not> v < NaN"
  by (cases v; simp)+

lemma Math_abs_not_NegInf [simp]: "Math_abs x \<noteq> NegInf"
  by (cases x) simp_all

lemma Math_max_NegInf: "Math_max x y = NegInf \<Longrightarrow> y = NegInf"
  by (cases x; cases y) (simp_all split: if_splits)

lemma Math_max_Fin:
  "Math_max x y = Fin m \<Longrightarrow> x \<noteq> NegInf \<Longrightarrow> y \<noteq> NegInf \<Longrightarrow>
   \<exists>a b. x = Fin a \<and> y = Fin b \<and> a \<le> m \<and> b \<le> m"
  by (cases x; cases y) (auto split: if_splits)

lemma Math_abs_Fin: "Math_abs x = Fin b \<Longrightarrow> \<exists>r. x = Fin r \<and> b = \<bar>r\<bar>"
  by (cases x) auto

lemma maxValue_invariant:
  "n \<le> length data \<Longrightarrow>
   fold (\<lambda>i maxValue. Math_max maxValue (Math_abs (get data i))) [0..<n] (Fin 0) \<noteq> NegInf \<and>
   (\<forall>m. fold (\<lambda>i maxValue. Math_max maxValue (Math_abs (get data i))) [0..<n] (Fin 0) = Fin m \<longrightarrow>
        (\<forall>i < n. \<exists>r. data ! i = Fin r \<and> \<bar>r\<bar> \<le> m))"
proof (induction n)
  case 0
  then show ?case by simp
next
  case (Suc n)
  let ?R = "fold (\<lambda>i maxValue. Math_max maxValue (Math_abs (get data i))) [0..<n] (Fin 0)"
  have n: "n < length data" using Suc.prems by simp
  have IH: "?R \<noteq> NegInf" "\<And>m. ?R = Fin m \<Longrightarrow> \<forall>i < n. \<exists>r. data ! i = Fin r \<and> \<bar>r\<bar> \<le> m"
    using Suc.IH n by auto
  have step: "fold (\<lambda>i maxValue. Math_max maxValue (Math_abs (get data i))) [0..<Suc n] (Fin 0)
      = Math_max ?R (Math_abs (data ! n))"
    using n by (simp add: get_def)
  have 1: "Math_max ?R (Math_abs (data ! n)) \<noteq> NegInf"
    using Math_max_NegInf [of ?R "Math_abs (data ! n)"] by auto
  have 2: "\<forall>i < Suc n. \<exists>r. data ! i = Fin r \<and> \<bar>r\<bar> \<le> m"
    if "Math_max ?R (Math_abs (data ! n)) = Fin m" for m
  proof -
    from Math_max_Fin [OF that IH(1)]
    obtain a b where ab: "?R = Fin a" "Math_abs (data ! n) = Fin b" "a \<le> m" "b \<le> m"
      by auto
    from Math_abs_Fin [OF ab(2)] obtain r where r: "data ! n = Fin r" "b = \<bar>r\<bar>" by auto
    show ?thesis
    proof (intro allI impI)
      fix i assume "i < Suc n"
      then consider "i < n" | "i = n" by linarith
      then show "\<exists>r. data ! i = Fin r \<and> \<bar>r\<bar> \<le> m"
      proof cases
        case 1
        then obtain r' where "data ! i = Fin r'" "\<bar>r'\<bar> \<le> a" using IH(2) [OF ab(1)] by blast
        then show ?thesis using ab(3) by auto
      next
        case 2
        then show ?thesis using r ab(4) by auto
      qed
    qed
  qed
  show ?case unfolding step using 1 2 by blast
qed

lemma above_threshold_all_samples:
  assumes "for_range 0 (length data)
             (\<lambda>i maxValue. Math_max maxValue (Math_abs (get data i))) (Fin 0) * Fin 0.3 < v"
    and "x \<in> set data"
  shows "Math_abs x * Fin 0.3 < v"
proof -
  let ?M = "fold (\<lambda>i maxValue. Math_max maxValue (Math_abs (get data i))) [0..<length data] (Fin 0)"
  have inv: "?M \<noteq> NegInf" "\<And>m. ?M = Fin m \<Longrightarrow> \<forall>i < length data. \<exists>r. data ! i = Fin r \<and> \<bar>r\<bar> \<le> m"
    using maxValue_invariant [of "length data" data] by auto
  have lt: "?M * Fin 0.3 < v" using assms(1) by (simp add: for_range_def)
  obtain m where m: "?M = Fin m"
    using lt inv(1) by (cases ?M) auto
  obtain i where i: "i < length data" "data ! i = x"
    using assms(2) by (auto simp: in_set_conv_nth)
  then obtain r where r: "x = Fin r" "\<bar>r\<bar> \<le> m" using inv(2) [OF m] by auto
  show ?thesis
    using lt r unfolding m by (cases v) auto
qed


lemma peaks_from_props:
  "p \<in> set (peaks_from data rate windowSize maxValue i) \<Longrightarrow>
   \<exists>k. i \<le> k \<and> k + windowSize < length data \<and> pk_index p = int k \<and>
       pk_value p = Math_abs (data ! k) \<and> maxValue * Fin 0.3 < pk_value p"
proof (induction data rate windowSize maxValue i rule: peaks_from.induct)
  case (1 data rate windowSize maxValue i)
  show ?case
  proof (cases "i + windowSize < length data")
    case False
    then show ?thesis using "1.prems" by (subst (asm) peaks_from.simps) simp
  next
    case True
    let ?cur = "Math_abs (get data i)"
    let ?acc = "maxValue * Fin 0.3 < ?cur \<and>
       list_all (\<lambda>j. \<not> (j \<noteq> i \<and> ?cur < Math_abs (get data j))) [i - windowSize..<i + windowSize]"
    have gi: "get data i = data ! i" using True by (simp add: get_def)
    show ?thesis
    proof (cases ?acc)
      case acc: True
      have eq: "peaks_from data rate windowSize maxValue i =
          \<lparr>pk_index = int i, pk_value = ?cur, pk_time = Fin (real i) / Fin rate\<rparr>
            # peaks_from data rate windowSize maxValue (i + windowSize + 1)"
        using True acc by (subst peaks_from.simps) (simp only: Let_def if_True simp_thms)
      from "1.prems" [unfolded eq]
      consider "p = \<lparr>pk_index = int i, pk_value = ?cur, pk_time = Fin (real i) / Fin rate\<rparr>"
        | "p \<in> set (peaks_from data rate windowSize maxValue (i + windowSize + 1))"
        by auto
      then show ?thesis
      proof cases
        case 1
        then show ?thesis using True acc gi by auto
      next
        case 2
        from "1.IH"(1) [OF True refl _ 2] acc
        obtain k where "i + windowSize + 1 \<le> k" "k + windowSize < length data"
          "pk_index p = int k" "pk_value p = Math_abs (data ! k)"
          "maxValue * Fin 0.3 < pk_value p"
          by auto
        then show ?thesis by (intro exI [of _ k]) simp
      qed
    next
      case nacc: False
      have eq: "peaks_from data rate windowSize maxValue i =
          peaks_from data rate windowSize maxValue (i + 1)"
        using True nacc by (subst peaks_from.simps) (simp only: Let_def if_True if_False simp_thms)
      from "1.IH"(2) [OF True refl _ "1.prems" [unfolded eq]] nacc
      obtain k where "i + 1 \<le> k" "k + windowSize < length data"
          "pk_index p = int k" "pk_value p = Math_abs (data ! k)"
          "maxValue * Fin 0.3 < pk_value p"
        by auto
      then show ?thesis by (intro exI [of _ k]) simp
    qed
  qed
qed

lemma peaks_from_sorted:
  "sorted_wrt (<) (map pk_index (peaks_from data rate windowSize maxValue i))"
proof (induction data rate windowSize maxValue i rule: peaks_from.induct)
  case (1 data rate windowSize maxValue i)
  show ?case
  proof (cases "i + windowSize < length data")
    case False
    then show ?thesis by (subst peaks_from.simps) simp
  next
    case True
    let ?cur = "Math_abs (get data i)"
    let ?acc = "maxValue * Fin 0.3 < ?cur \<and>
       list_all (\<lambda>j. \<not> (j \<noteq> i \<and> ?cur < Math_abs (get data j))) [i - windowSize..<i + windowSize]"
    show ?thesis
    proof (cases ?acc)
      case acc: True
      have eq: "peaks_from data rate windowSize maxValue i =
          \<lparr>pk_index = int i, pk_value = ?cur, pk_time = Fin (real i) / Fin rate\<rparr>
            # peaks_from data rate windowSize maxValue (i + windowSize + 1)"
        using True acc by (subst peaks_from.simps) (simp only: Let_def if_True simp_thms)
      have later: "int i < pk_index p"
        if "p \<in> set (peaks_from data rate windowSize maxValue (i + windowSize + 1))" for p
        using peaks_from_props [OF that] by auto
      have "sorted_wrt (<) (map pk_index (peaks_from data rate windowSize maxValue (i + windowSize + 1)))"
        using "1.IH"(1) [OF True refl] acc by simp
      then show ?thesis unfolding eq using later by auto
    next
      case nacc: False
      have eq: "peaks_from data rate windowSize maxValue i =
          peaks_from data rate windowSize maxValue (i + 1)"
        using True nacc by (subst peaks_from.simps) (simp only: Let_def if_True if_False simp_thms)
      show ?thesis unfolding eq using "1.IH"(2) [OF True refl] nacc by simp
    qed
  qed
qed

text \<open>
  Claim C5. Feature extraction succeeds on a buffer with a channel, and its significant
  peaks are strictly increasing in sample index. Every peak's value is the absolute
  amplitude at its index, and it is strictly greater than \<open>0.3\<close> times the absolute
  amplitude of every sample of the analysed channel, hence than \<open>0.3\<close> times the global
  maximum.
\<close>

theorem significantPeaks_increasing_above_threshold:
  assumes "0 < numberOfChannels buffer"
  shows "\<exists>features. extractFeatures buffer = Inr features \<and>
     sorted_wrt (<) (map pk_index (significantPeaks features)) \<and>
     (\<forall>p \<in> set (significantPeaks features).
        (\<exists>k < length (channelData buffer ! 0).
           pk_index p = int k \<and> pk_value p = Math_abs (channelData buffer ! 0 ! k)) \<and>
        (\<forall>x \<in> set (channelData buffer ! 0). Math_abs x * Fin 0.3 < pk_value p))"
proof -
  let ?data = "channelData buffer ! 0"
  obtain f where f: "extractFeatures buffer = Inr f"
    "significantPeaks f = findSignificantPeaks ?data (sampleRate buffer)"
    using extractFeatures_fields [OF assms] by auto
  let ?w = "nat \<lfloor>sampleRate buffer * 0.01\<rfloor>"
  let ?M = "for_range 0 (length ?data)
              (\<lambda>i maxValue. Math_max maxValue (Math_abs (get ?data i))) (Fin 0)"
  have peaks: "significantPeaks f = peaks_from ?data (sampleRate buffer) ?w ?M ?w"
    using f(2) by (simp add: findSignificantPeaks_def Let_def)
  have 1: "sorted_wrt (<) (map pk_index (significantPeaks f))"
    unfolding peaks by (rule peaks_from_sorted)
  have 2: "(\<exists>k < length ?data. pk_index p = int k \<and> pk_value p = Math_abs (?data ! k)) \<and>
        (\<forall>x \<in> set ?data. Math_abs x * Fin 0.3 < pk_value p)"
    if "p \<in> set (significantPeaks f)" for p
  proof -
    from peaks_from_props [OF that [unfolded peaks]]
    obtain k where k: "k + ?w < length ?data" "pk_index p = int k"
      "pk_value p = Math_abs (?data ! k)" "?M * Fin 0.3 < pk_value p"
      by auto
    have "\<forall>x \<in> set ?data. Math_abs x * Fin 0.3 < pk_value p"
      using above_threshold_all_samples [OF k(4)] by blast
    moreover have "k < length ?data" using k(1) by simp
    ultimately show ?thesis using k(2,3) by blast
  qed
  show ?thesis using f(1) 1 2 by blast
qed

theorem significantPeaks_increasing_above_threshold_witness:
  "0 < numberOfChannels \<lparr>buf_length = 404, sampleRate = 8000,
                          channelData = [replicate 404 (Fin 1)]\<rparr> \<and>
   (\<exists>features.
      extractFeatures \<lparr>buf_length = 404, sampleRate = 8000,
                        channelData = [replicate 404 (Fin 1)]\<rparr> = Inr features \<and>
      length (significantPeaks features) = 4 \<and>
      sorted_wrt (<) (map pk_index (significantPeaks features)) \<and>
      (\<forall>p \<in> set (significantPeaks features). Fin 0.3 < pk_value p))"
proof -
  let ?b = "\<lparr>buf_length = 404, sampleRate = 8000, channelData = [replicate 404 (Fin 1)]\<rparr>"
  have ch: "0 < numberOfChannels ?b" by (simp add: numberOfChannels_def)
  from significantPeaks_increasing_above_threshold [OF ch]
  obtain f where f: "extractFeatures ?b = Inr f"
      "sorted_wrt (<) (map pk_index (significantPeaks f))"
      "\<forall>p \<in> set (significantPeaks f).
         \<forall>x \<in> set (channelData ?b ! 0). Math_abs x * Fin 0.3 < pk_value p"
    by blast
  from f(3) have "\<forall>p \<in> set (significantPeaks f). Fin 0.3 < pk_value p"
    by simp
  moreover have "length (significantPeaks f) = 4"
    using extractFeatures_fields [OF ch] f(1) peaks_constant by auto
  ultimately show ?thesis using ch f(1,2) by blast
qed

subsection \<open>Every stage returns a buffer of the platform\<close>

lemma fold_length:
  "(\<And>i s. length (body i s) = length s) \<Longrightarrow> length (fold body is s) = length s"
  by (induction "is" arbitrary: s) auto

lemma for_range_length:
  "(\<And>i s. length (body i s) = length s) \<Longrightarrow> length (for_range a b body s) = length s"
  by (simp add: for_range_def fold_length)

lemma fold_invariant:
  "P s \<Longrightarrow> (\<And>i s. P s \<Longrightarrow> P (body i s)) \<Longrightarrow> P (fold body is s)"
  by (induction "is" arbitrary: s) auto

lemma for_range_invariant:
  "P s \<Longrightarrow> (\<And>i s. P s \<Longrightarrow> P (body i s)) \<Longrightarrow> P (for_range a b body s)"
  unfolding for_range_def by (rule fold_invariant)

lemma each_channel_created:
  "each_channel body b
     \<lparr>buf_length = n, sampleRate = r,
      channelData = replicate (length (channelData b)) z\<rparr> =
   \<lparr>buf_length = n, sampleRate = r,
    channelData = map (\<lambda>ch. body ch (channelData b ! ch) z) [0..<length (channelData b)]\<rparr>"
  by (simp add: each_channel_def numberOfChannels_def)

lemma wf_buffer_result:
  "0 < k \<Longrightarrow> 0 < n \<Longrightarrow> 0 < r \<Longrightarrow> (\<And>ch. ch < k \<Longrightarrow> length (g ch) = n) \<Longrightarrow>
   wf_buffer \<lparr>buf_length = n, sampleRate = r, channelData = map g [0..<k]\<rparr>"
  by (simp add: wf_buffer_def list_all_iff)

lemma createBuffer_ok:
  "0 < k \<Longrightarrow> 0 < n \<Longrightarrow> 0 < r \<Longrightarrow>
   createBuffer k n r =
     Inr \<lparr>buf_length = n, sampleRate = r, channelData = replicate k (replicate n (Fin 0))\<rparr>"
  by (simp add: createBuffer_def)

lemma transient_channel_length [simp]:
  "length (transient_channel buffer attackGain sustainGain inputData outputData) = length outputData"
  unfolding transient_channel_def Let_def
  by (rule for_range_invariant [where P = "\<lambda>s. length (snd s) = length outputData"])
     (simp_all add: case_prod_beta)

lemma distortion_channel_length [simp]:
  "length (distortion_channel amount inputData outputData) = length outputData"
  by (simp add: distortion_channel_def)

lemma reverb_channel_length [simp]:
  "length (reverb_channel impulse impulseLength wetDry channel inputData outputData) = length outputData"
  unfolding reverb_channel_def Let_def
  by (rule for_range_invariant [where P = "\<lambda>s. length s = length outputData"], simp)
     (rule for_range_invariant, simp_all)

lemma delay_tap_length [simp]:
  "length (delay_tap delaySamples currentFeedback inputData outputData) = length outputData"
  unfolding delay_tap_def
  by (rule for_range_invariant [where P = "\<lambda>s. length s = length outputData"])
     (simp_all add: Let_def)

lemma delay_taps_length:
  "length (fst (delay_taps ds fb maxTaps inp (out, cf, tc))) = length out"
proof (induction ds fb maxTaps inp "(out, cf, tc)" arbitrary: out cf tc rule: delay_taps.induct)
  case (1 ds fb maxTaps inp out cf tc)
  show ?case
  proof (cases "cf > round_double 0.01 \<and> tc < maxTaps")
    case True
    then have "delay_taps ds fb maxTaps inp (out, cf, tc) =
        delay_taps ds fb maxTaps inp (delay_tap ds cf inp out, round_double (cf * fb), tc + 1)"
      by (subst delay_taps.simps) (simp only: if_True simp_thms)
    then show ?thesis using "1.hyps" [OF True] by simp
  next
    case False
    then have "delay_taps ds fb maxTaps inp (out, cf, tc) = (out, cf, tc)"
      by (subst delay_taps.simps) (simp only: if_False simp_thms)
    then show ?thesis by simp
  qed
qed

lemma delay_channel_length [simp]:
  "length (fst (delay_channel buffer delayTime feedback inputData outputData)) = length outputData"
  by (simp add: delay_channel_def Let_def delay_taps_length)

lemma processOneShot_length [simp]:
  "length (processOneShot features inputData outputData) = length outputData"
  unfolding processOneShot_def
  by (simp only: Let_def, rule for_range_invariant [where P = "\<lambda>s. length s = length outputData"])
     (simp_all add: Let_def)

lemma set_int_length [simp]: "length (set_int xs i v) = length xs"
  by (simp add: set_int_def)

lemma loop_segment_length [simp]:
  "length (loop_segment features inputData p outputData) = length outputData"
  by (simp add: loop_segment_def Let_def fold_length)

lemma processLoopAudio_length [simp]:
  "length (processLoopAudio features inputData outputData) = length outputData"
  by (simp add: processLoopAudio_def Let_def for_range_length)

lemma applySpectralAdjustment_length [simp]:
  "length (applySpectralAdjustment data ratio) = length data"
proof -
  have 1: "length (for_range 1 (length data)
       (\<lambda>i d. d[i := get d i + (get d i - get d (i - 1)) * (ratio - Fin 1) * Fin 0.5]) data) = length data"
    by (rule for_range_invariant [where P = "\<lambda>s. length s = length data"]) simp_all
  have 2: "length (fst (for_range 1 (length data)
       (\<lambda>i (d, prevSample). let v = get d i * ratio + prevSample * (Fin 1 - ratio) in (d[i := v], v))
       (data, get data 0))) = length data"
    by (rule for_range_invariant [where P = "\<lambda>s. length (fst s) = length data"])
       (simp_all add: case_prod_beta Let_def)
  show ?thesis using 1 2 by (simp add: applySpectralAdjustment_def)
qed

lemma postProcess_length [simp]:
  "length (postProcess features outputData) = length outputData"
  by (simp add: postProcess_def Let_def for_range_length)


lemma createBuffer_for:
  "wf_buffer b \<Longrightarrow> 0 < n \<Longrightarrow>
   createBuffer (numberOfChannels b) n (sampleRate b) =
     Inr \<lparr>buf_length = n, sampleRate = sampleRate b,
          channelData = replicate (length (channelData b)) (replicate n (Fin 0))\<rparr>"
  by (simp add: wf_buffer_def createBuffer_def numberOfChannels_def)

lemma effect_result_wf:
  assumes "wf_buffer b" and "0 < n"
    and "\<And>ch inp out. length (body ch inp out) = length out"
  shows "wf_buffer (each_channel body b
           \<lparr>buf_length = n, sampleRate = sampleRate b,
            channelData = replicate (length (channelData b)) (replicate n (Fin 0))\<rparr>)"
  using assms by (simp add: each_channel_created wf_buffer_def list_all_iff)

lemma each_channel_fields [simp]:
  "buf_length (each_channel body b p) = buf_length p"
  "sampleRate (each_channel body b p) = sampleRate p"
  by (simp_all add: each_channel_def)

lemma created_effect_ok:
  assumes "wf_buffer b" and "0 < n"
    and "\<And>ch inp out. length (body ch inp out) = length out"
  shows "\<exists>out. (case createBuffer (numberOfChannels b) n (sampleRate b) of
                  Inl e \<Rightarrow> Inl e
                | Inr processedBuffer \<Rightarrow> Inr (each_channel body b processedBuffer)) = Inr out \<and>
           wf_buffer out \<and> sampleRate out = sampleRate b \<and> buf_length out = n"
  using effect_result_wf [OF assms]
  by (simp add: createBuffer_for [OF assms(1,2)])

lemma wf_buffer_length: "wf_buffer b \<Longrightarrow> 0 < buf_length b"
  by (simp add: wf_buffer_def)

lemma processTransientEnhancement_ok:
  assumes "wf_buffer b"
  shows "\<exists>out. processTransientEnhancement b attackGain sustainGain = Inr out \<and> wf_buffer out \<and>
           sampleRate out = sampleRate b \<and> buf_length out = buf_length b"
  unfolding processTransientEnhancement_def
  by (rule created_effect_ok) (use assms in \<open>simp_all add: wf_buffer_length\<close>)

lemma processPitchShift_ok:
  assumes "wf_buffer b"
  shows "\<exists>out. processPitchShift b semitones = Inr out \<and> wf_buffer out \<and>
           sampleRate out = sampleRate b \<and> buf_length out = buf_length b"
  unfolding processPitchShift_def Let_def
  by (rule created_effect_ok) (use assms in \<open>simp_all add: wf_buffer_length\<close>)

lemma bitCrush_channel_length [simp]:
  "length (bitCrush_channel steps inputData outputData) = length outputData"
  by (simp add: bitCrush_channel_def)

lemma processBitCrush_ok:
  assumes "wf_buffer b"
  shows "\<exists>out. processBitCrush b bits = Inr out \<and> wf_buffer out \<and>
           sampleRate out = sampleRate b \<and> buf_length out = buf_length b"
  unfolding processBitCrush_def
  by (rule created_effect_ok) (use assms in \<open>simp_all add: wf_buffer_length\<close>)

lemma processDistortion_ok:
  assumes "wf_buffer b"
  shows "\<exists>out. processDistortion b amount = Inr out \<and> wf_buffer out \<and>
           sampleRate out = sampleRate b \<and> buf_length out = buf_length b"
  unfolding processDistortion_def
  by (rule created_effect_ok) (use assms in \<open>simp_all add: wf_buffer_length\<close>)

lemma processDelay_ok:
  assumes "wf_buffer b"
  shows "\<exists>out. processDelay b delayTime feedback = Inr out \<and> wf_buffer out \<and>
           sampleRate out = sampleRate b \<and>
           buf_length out = buf_length b
             + nat \<lfloor>sampleRate b * (if buf_duration b > 2.0 then 0.5 else 1.0)\<rfloor>"
  unfolding processDelay_def Let_def
  by (rule created_effect_ok) (use assms in \<open>simp_all add: wf_buffer_length\<close>)

lemma processReverb_ok:
  assumes "wf_buffer b" and "1 \<le> sampleRate b * roomSize"
  shows "\<exists>out rng'. processReverb rng b roomSize wetDry = Inr (out, rng') \<and> wf_buffer out \<and>
           sampleRate out = sampleRate b \<and>
           buf_length out = buf_length b
             + nat \<lfloor>sampleRate b * (if buf_duration b > 2.0 then 0.5 else 1.0)\<rfloor>"
proof -
  let ?n = "buf_length b + nat \<lfloor>sampleRate b * (if buf_duration b > 2.0 then 0.5 else 1.0)\<rfloor>"
  let ?L = "nat \<lfloor>sampleRate b * roomSize\<rfloor>"
  let ?imp = "\<lparr>buf_length = ?L, sampleRate = sampleRate b,
           channelData = replicate 2 (replicate ?L (Fin 0))\<rparr>"
  have n: "0 < ?n" using assms by (simp add: wf_buffer_def)
  have "1 \<le> \<lfloor>sampleRate b * roomSize\<rfloor>" using assms(2) by (simp add: le_floor_iff)
  then have L: "0 < ?L" by simp
  have sr: "0 < sampleRate b" using assms by (simp add: wf_buffer_def)
  have imp: "createBuffer 2 ?L (sampleRate b) = Inr ?imp"
    using L sr by (simp add: createBuffer_def)
  let ?p = "\<lparr>buf_length = ?n, sampleRate = sampleRate b,
          channelData = replicate (length (channelData b)) (replicate ?n (Fin 0))\<rparr>"
  let ?body = "reverb_channel (fst (fill_impulse ?L rng ?imp)) ?L wetDry"
  have cb: "createBuffer (numberOfChannels b) ?n (sampleRate b) = Inr ?p"
    by (rule createBuffer_for [OF assms(1) n])
  have wf: "wf_buffer (each_channel ?body b ?p)"
    by (rule effect_result_wf [OF assms(1) n]) simp
  have "processReverb rng b roomSize wetDry =
      Inr (each_channel ?body b ?p, snd (fill_impulse ?L rng ?imp))"
    unfolding processReverb_def Let_def cb imp by (simp add: case_prod_beta)
  then show ?thesis using wf by (intro exI [of _ "each_channel ?body b ?p"]) simp
qed

lemma synthesizeAudio_ok:
  assumes "wf_buffer b"
  shows "\<exists>out. synthesizeAudio b features isLoop = Inr out \<and> wf_buffer out \<and>
           sampleRate out = sampleRate b \<and> buf_length out = buf_length b"
  unfolding synthesizeAudio_def
  by (rule created_effect_ok) (use assms in \<open>simp_all add: wf_buffer_length\<close>)

lemma generateVariation_ok:
  assumes "wf_buffer b"
  shows "\<exists>out rng'. generateVariation rng b amount focus = Inr (out, rng') \<and> wf_buffer out \<and>
           sampleRate out = sampleRate b \<and> buf_length out = buf_length b"
proof -
  have "0 < numberOfChannels b" using assms by (simp add: wf_buffer_def numberOfChannels_def)
  then obtain f where f: "extractFeatures b = Inr f"
    using extractFeatures_fields by blast
  obtain out where "synthesizeAudio b (fst (modifyFeatures rng f amount focus (isLikelyLoop f)))
        (isLikelyLoop f) = Inr out" "wf_buffer out" "sampleRate out = sampleRate b"
      "buf_length out = buf_length b"
    using synthesizeAudio_ok [OF assms] by blast
  then show ?thesis
    by (simp add: generateVariation_def f bind_err_def Let_def case_prod_beta)
qed


lemma bind_err_Inr: "bind_err (Inr x) f = f x"
  by (simp add: bind_err_def)

lemma extreme_ok:
  assumes "wf_buffer b"
  shows "\<exists>out. (if isLoop
                 then bind_err (processDelay b dt fb) (\<lambda>delayed. processDistortion delayed a1)
                 else bind_err (processDistortion b a2) (\<lambda>distorted. processBitCrush distorted bits))
                = Inr out \<and> wf_buffer out \<and> sampleRate out = sampleRate b"
proof (cases isLoop)
  case True
  obtain d where d: "processDelay b dt fb = Inr d" "wf_buffer d" "sampleRate d = sampleRate b"
    using processDelay_ok [OF assms] by blast
  obtain out where "processDistortion d a1 = Inr out" "wf_buffer out" "sampleRate out = sampleRate d"
    using processDistortion_ok [OF d(2)] by blast
  then show ?thesis using True d by (simp add: bind_err_def)
next
  case False
  obtain d where d: "processDistortion b a2 = Inr d" "wf_buffer d" "sampleRate d = sampleRate b"
    using processDistortion_ok [OF assms] by blast
  obtain out where "processBitCrush d bits = Inr out" "wf_buffer out" "sampleRate out = sampleRate d"
    using processBitCrush_ok [OF d(2)] by blast
  then show ?thesis using False d by (simp add: bind_err_def)
qed

lemma hook_generateVariations_ok:
  assumes wf: "wf_buffer sample" and sr: "10 \<le> sampleRate sample"
  shows "\<exists>vs rng'. generateVariations rng (Some sample) mlBalance isLoop = Inr (vs, rng') \<and>
           length vs = 8 \<and> list_all wf_buffer vs"
proof -
  obtain v1 r1 where s1: "generateVariation rng sample (0.6 * mlBalance) attack = Inr (v1, r1)"
      and w1: "wf_buffer v1"
    using generateVariation_ok [OF wf] by blast
  obtain v2 r2 where s2: "generateVariation r1 sample (0.7 * mlBalance) decay = Inr (v2, r2)"
      and w2: "wf_buffer v2"
    using generateVariation_ok [OF wf] by blast
  obtain v3 r3 where s3: "generateVariation r2 sample (0.65 * mlBalance) sustain = Inr (v3, r3)"
      and w3: "wf_buffer v3"
    using generateVariation_ok [OF wf] by blast
  obtain v4 r4 where s4: "generateVariation r3 sample (0.7 * mlBalance) release = Inr (v4, r4)"
      and w4: "wf_buffer v4"
    using generateVariation_ok [OF wf] by blast
  obtain tv r5 where s5: "generateVariation r4 sample (0.8 * mlBalance) tone = Inr (tv, r5)"
      and wt: "wf_buffer tv"
    using generateVariation_ok [OF wf] by blast
  obtain v5 where s5b: "(if mlBalance < 0.7 then processBitCrush tv 10 else Inr tv) = Inr v5"
      and w5: "wf_buffer v5"
    using processBitCrush_ok [OF wt, of 10] wt by (cases "mlBalance < 0.7") auto
  obtain ps where s6: "processPitchShift sample (if isLoop then 1 else 3) = Inr ps"
      and wps: "wf_buffer ps"
    using processPitchShift_ok [OF wf] by blast
  obtain v6 r6 where s6b: "generateVariation r5 ps (0.5 * mlBalance) balanced = Inr (v6, r6)"
      and w6: "wf_buffer v6"
    using generateVariation_ok [OF wps] by blast
  have room: "1 \<le> sampleRate sample * (if isLoop then 0.1 else 0.3)"
    using sr by simp
  obtain rv r7 where s7: "processReverb r6 sample (if isLoop then 0.1 else 0.3)
        (if isLoop then 0.3 else 0.6) = Inr (rv, r7)"
      and wrv: "wf_buffer rv"
    using processReverb_ok [OF wf room] by blast
  obtain v7 r8 where s7b: "generateVariation r7 rv (0.4 * mlBalance)
        (if isLoop then sustain else release) = Inr (v7, r8)"
      and w7: "wf_buffer v7"
    using generateVariation_ok [OF wrv] by blast
  obtain ex where s8: "(if isLoop
        then bind_err (processDelay sample 0.125 0.3) (\<lambda>delayed. processDistortion delayed 3)
        else bind_err (processDistortion sample 8) (\<lambda>distorted. processBitCrush distorted 6))
        = Inr ex"
      and wex: "wf_buffer ex"
    using extreme_ok [OF wf] by blast
  obtain v8 r9 where s8b: "generateVariation r8 ex (0.9 * mlBalance) balanced = Inr (v8, r9)"
      and w8: "wf_buffer v8"
    using generateVariation_ok [OF wex] by blast
  have "generateVariations rng (Some sample) mlBalance isLoop =
      Inr ([v1, v2, v3, v4, v5, v6, v7, v8], r9)"
    by (simp only: generateVariations_def option.case prod.case bind_err_Inr
        s1 s2 s3 s4 s5 s5b s6 s6b s7 s7b s8 s8b)
  then show ?thesis
    using w1 w2 w3 w4 w5 w6 w7 w8 by simp
qed


lemma AudioProcessor_generateVariations_ok:
  assumes wf: "wf_buffer buffer" and sr: "20 \<le> sampleRate buffer"
  shows "\<exists>vs rng'. AudioProcessor_generateVariations rng (Some buffer) isLoop = Inr (vs, rng') \<and>
           length vs = 8 \<and> list_all wf_buffer vs"
proof -
  obtain v1 where s1: "processTransientEnhancement buffer (if isLoop then 1.1 else 1.3)
        (if isLoop then 0.95 else 0.85) = Inr v1"
      and w1: "wf_buffer v1"
    using processTransientEnhancement_ok [OF wf] by blast
  obtain v2 where s2: "processPitchShift buffer (if isLoop then 1 else 3) = Inr v2"
      and w2: "wf_buffer v2"
    using processPitchShift_ok [OF wf] by blast
  obtain v3 where s3: "processPitchShift buffer (if isLoop then - 1 else - 3) = Inr v3"
      and w3: "wf_buffer v3"
    using processPitchShift_ok [OF wf] by blast
  obtain v4 where s4: "processBitCrush buffer (if isLoop then 10 else 8) = Inr v4"
      and w4: "wf_buffer v4"
    using processBitCrush_ok [OF wf] by blast
  have room5: "1 \<le> sampleRate buffer * (if isLoop then 0.1 else 0.3)"
    using sr by simp
  obtain v5 r1 where s5: "processReverb rng buffer (if isLoop then 0.1 else 0.3)
        (if isLoop then 0.3 else 0.5) = Inr (v5, r1)"
      and w5: "wf_buffer v5"
    using processReverb_ok [OF wf room5] by blast
  obtain v6 where s6: "processDelay buffer (if isLoop then 0.125 else 0.25)
        (if isLoop then 0.3 else 0.4) = Inr v6"
      and w6: "wf_buffer v6"
    using processDelay_ok [OF wf] by blast
  obtain ps where s7: "processPitchShift buffer (if isLoop then 0.5 else 1) = Inr ps"
      and wps: "wf_buffer ps" and rps: "sampleRate ps = sampleRate buffer"
    using processPitchShift_ok [OF wf] by blast
  have room7: "1 \<le> sampleRate ps * (if isLoop then 0.05 else 0.1)"
    using sr rps by simp
  obtain v7 r2 where s7b: "processReverb r1 ps (if isLoop then 0.05 else 0.1)
        (if isLoop then 0.2 else 0.3) = Inr (v7, r2)"
      and w7: "wf_buffer v7"
    using processReverb_ok [OF wps room7] by blast
  obtain v8 where s8: "(if isLoop
        then bind_err (processDelay buffer 0.125 0.3) (\<lambda>delayed. processDistortion delayed 3)
        else bind_err (processDistortion buffer 10) (\<lambda>distorted. processBitCrush distorted 6))
        = Inr v8"
      and w8: "wf_buffer v8"
    using extreme_ok [OF wf] by blast
  have "AudioProcessor_generateVariations rng (Some buffer) isLoop =
      Inr ([v1, v2, v3, v4, v5, v6, v7, v8], r2)"
    by (simp only: AudioProcessor_generateVariations_def option.case prod.case bind_err_Inr
        s1 s2 s3 s4 s5 s6 s7 s7b s8)
  then show ?thesis
    using w1 w2 w3 w4 w5 w6 w7 w8 by simp
qed

text \<open>
  Claim C1. For every loaded buffer of the platform (the rate at least \<open>20\<close> Hz, far below
  any rate the platform offers), every balance and both classifications, variation
  generation succeeds with exactly eight buffers: the hook's recipe and the recipe of the
  effect library alike.
\<close>

theorem generateVariations_eight:
  assumes "wf_buffer sample" and "20 \<le> sampleRate sample"
  shows "(\<exists>variations rng'.
            generateVariations rng (Some sample) mlBalance isLoop = Inr (variations, rng') \<and>
            length variations = 8) \<and>
         (\<exists>variations rng'.
            AudioProcessor_generateVariations rng (Some sample) isLoop = Inr (variations, rng') \<and>
            length variations = 8)"
proof -
  have "10 \<le> sampleRate sample" using assms(2) by simp
  from hook_generateVariations_ok [OF assms(1) this]
    AudioProcessor_generateVariations_ok [OF assms]
  show ?thesis by blast
qed

theorem generateVariations_eight_witness:
  "wf_buffer \<lparr>buf_length = 3, sampleRate = 44100,
              channelData = [[Fin 0.5, Fin (- 0.25), Fin 0.125]]\<rparr> \<and>
   (\<exists>variations rng'.
      generateVariations (\<lambda>n. 1 / 2)
        (Some \<lparr>buf_length = 3, sampleRate = 44100,
               channelData = [[Fin 0.5, Fin (- 0.25), Fin 0.125]]\<rparr>) (1 / 2) False =
        Inr (variations, rng') \<and> length variations = 8)"
proof -
  let ?b = "\<lparr>buf_length = 3, sampleRate = 44100,
              channelData = [[Fin 0.5, Fin (- 0.25), Fin 0.125]]\<rparr>"
  have wf: "wf_buffer ?b" by (simp add: wf_buffer_def)
  have sr: "20 \<le> sampleRate ?b" by simp
  show ?thesis
    using wf generateVariations_eight [OF wf sr, of "\<lambda>n. 1 / 2" "1 / 2" False] by blast
qed

subsection \<open>Silence\<close>

lemma get_zeros [simp]: "i < n \<Longrightarrow> get (replicate n (Fin 0)) i = Fin 0"
  by (simp add: get_def)

lemma transient_channel_silence:
  "transient_channel buffer attackGain sustainGain (replicate n (Fin 0)) (replicate m (Fin 0)) =
     replicate m (Fin 0)"
  unfolding transient_channel_def Let_def
  by (rule for_range_invariant_mem [where P = "\<lambda>s. snd s = replicate m (Fin 0)"])
     (simp_all add: case_prod_beta)

lemma pitchShift_channel_silence:
  "pitchShift_channel (Math_pow2 e) (replicate n (Fin 0)) (replicate m (Fin 0)) = replicate m (Fin 0)"
proof (rule nth_equalityI)
  show "length (pitchShift_channel (Math_pow2 e) (replicate n (Fin 0)) (replicate m (Fin 0))) =
      length (replicate m (Fin 0))" by simp
next
  fix i assume "i < length (pitchShift_channel (Math_pow2 e) (replicate n (Fin 0)) (replicate m (Fin 0)))"
  then have i: "i < m" by simp
  from Math_pow2_cases [of e]
  show "pitchShift_channel (Math_pow2 e) (replicate n (Fin 0)) (replicate m (Fin 0)) ! i =
      replicate m (Fin 0) ! i"
  proof (elim disjE exE conjE)
    assume "Math_pow2 e = PosInf"
    then show ?thesis by (simp add: pitchShift_channel_overflow)
  next
    fix r assume "Math_pow2 e = Fin r" "0 \<le> r"
    then show ?thesis using i by (simp add: pitchShift_channel_nth Let_def)
  qed
qed

lemma bitCrush_sample_zero:
  assumes "1 \<le> bits \<and> bits \<le> 1023"
  shows "bitCrush_sample (Math_pow2_int bits) (Fin 0) = Fin 0"
proof -
  define k where "k = nat (bits - 1)"
  have nb: "nat bits = Suc k" and b0: "0 \<le> bits"
    using assms by (auto simp: k_def)
  have p: "(2::real) powi bits = 2 * 2 ^ k"
    using b0 nb by (simp add: power_int_def)
  have "\<lfloor>(2::real) ^ k\<rfloor> = 2 ^ k" by simp
  then show ?thesis
    using assms by (simp add: bitCrush_sample_def Math_pow2_int_def p minus_jsnum_def Let_def)
qed

lemma bitCrush_channel_silence:
  "1 \<le> bits \<and> bits \<le> 1023 \<Longrightarrow>
   bitCrush_channel (Math_pow2_int bits) (replicate n (Fin 0)) (replicate m (Fin 0)) =
     replicate m (Fin 0)"
  unfolding bitCrush_channel_def
  by (rule for_range_fixed) (simp add: bitCrush_sample_zero)

lemma distortion_channel_silence:
  "distortion_channel amount (replicate n (Fin 0)) (replicate m (Fin 0)) = replicate m (Fin 0)"
  unfolding distortion_channel_def
  by (rule for_range_fixed) simp

lemma delay_tap_silence:
  "delay_tap ds cf (replicate n (Fin 0)) (replicate m (Fin 0)) = replicate m (Fin 0)"
  unfolding delay_tap_def Let_def
  by (rule for_range_fixed) (auto simp: nat_less_iff)

lemma delay_taps_silence:
  "fst (delay_taps ds fb maxTaps (replicate n (Fin 0)) (replicate m (Fin 0), cf, tc)) =
     replicate m (Fin 0)"
proof (induction ds fb maxTaps "replicate n (Fin 0)" "(replicate m (Fin 0), cf, tc)"
    arbitrary: cf tc rule: delay_taps.induct)
  case (1 ds fb maxTaps cf tc)
  show ?case
  proof (cases "cf > round_double 0.01 \<and> tc < maxTaps")
    case True
    then have "delay_taps ds fb maxTaps (replicate n (Fin 0)) (replicate m (Fin 0), cf, tc) =
        delay_taps ds fb maxTaps (replicate n (Fin 0))
          (delay_tap ds cf (replicate n (Fin 0)) (replicate m (Fin 0)), round_double (cf * fb), tc + 1)"
      by (subst delay_taps.simps) (simp only: if_True simp_thms)
    then show ?thesis
      using "1.hyps" [OF True] by (simp add: delay_tap_silence)
  next
    case False
    then have "delay_taps ds fb maxTaps (replicate n (Fin 0)) (replicate m (Fin 0), cf, tc) =
        (replicate m (Fin 0), cf, tc)"
      by (subst delay_taps.simps) (simp only: if_False simp_thms)
    then show ?thesis by simp
  qed
qed

lemma delay_channel_silence:
  "fst (delay_channel buffer delayTime feedback (replicate n (Fin 0)) (replicate m (Fin 0))) =
     replicate m (Fin 0)"
proof -
  have "for_range 0 (length (replicate n (Fin 0)))
          (\<lambda>i out. out[i := get (replicate n (Fin 0)) i]) (replicate m (Fin 0)) =
        replicate m (Fin 0)"
    by (rule for_range_fixed) simp
  then show ?thesis
    by (simp add: delay_channel_def Let_def delay_taps_silence)
qed

lemma isFinite_iff: "isFinite x \<longleftrightarrow> (\<exists>v. x = Fin v)"
  by (cases x) simp_all

lemma fill_impulse_finite:
  assumes "length (channelData impulse) = 2"
    and "\<forall>c \<in> set (channelData impulse). length c = L \<and> list_all isFinite c"
  shows "length (channelData (fst (fill_impulse L rng impulse))) = 2 \<and>
         (\<forall>c \<in> set (channelData (fst (fill_impulse L rng impulse))).
            length c = L \<and> list_all isFinite c)"
proof -
  let ?Q = "\<lambda>s :: AudioBuffer \<times> rng. length (channelData (fst s)) = 2 \<and>
      (\<forall>c \<in> set (channelData (fst s)). length c = L \<and> list_all isFinite c)"
  have step: "?Q (imp\<lparr>channelData := (channelData imp)
                         [channel := (channelData imp ! channel)[i := Fin v]]\<rparr>, r')"
    if q: "?Q (imp, r)" for imp r r' channel i v
  proof (cases "channel < length (channelData imp)")
    case False
    then show ?thesis using q by (simp add: list_update_beyond)
  next
    case True
    let ?x = "(channelData imp ! channel)[i := Fin v]"
    have old: "length (channelData imp ! channel) = L" "list_all isFinite (channelData imp ! channel)"
      using q True by auto
    have "list_all isFinite ?x"
      using old(2) set_update_subset_insert [of "channelData imp ! channel" i "Fin v"]
      by (auto simp: list_all_iff)
    moreover have "length ?x = L" using old(1) by simp
    moreover have "set ((channelData imp)[channel := ?x]) \<subseteq> insert ?x (set (channelData imp))"
      by (rule set_update_subset_insert)
    ultimately show ?thesis using q by auto
  qed
  have "?Q (fill_impulse L rng impulse)"
    unfolding fill_impulse_def
  proof (rule for_range_invariant_mem [where P = ?Q], goal_cases)
    case 1
    then show ?case using assms by simp
  next
    case (2 channel s)
    have "?Q (for_range 0 L
         (\<lambda>i (imp, r).
             let (u, r') = Math_random r;
                 v = Fin ((u * 2 - 1) * exp (- real i / (real L * 0.5)))
             in (imp\<lparr>channelData := (channelData imp)
                         [channel := (channelData imp ! channel)[i := v]]\<rparr>, r'))
         s)"
    proof (rule for_range_invariant_mem [where P = ?Q], goal_cases)
      case 1
      then show ?case using 2 by simp
    next
      case (2 i t)
      obtain imp r where t: "t = (imp, r)" by (cases t)
      show ?case
        unfolding t using step [of imp r] 2(3) [unfolded t]
        by (simp add: case_prod_beta Let_def)
    qed
    then show ?case by (cases s) simp
  qed
  then show ?thesis by simp
qed

lemma reverb_channel_silence:
  assumes "length (channelData impulse) = 2"
    and "\<forall>c \<in> set (channelData impulse). length c = L \<and> list_all isFinite c"
  shows "reverb_channel impulse L wetDry channel (replicate n (Fin 0)) (replicate m (Fin 0)) =
           replicate m (Fin 0)"
proof -
  let ?z = "replicate m (Fin 0)"
  let ?imp = "channelData impulse ! (channel mod numberOfChannels impulse)"
  have "?imp \<in> set (channelData impulse)"
    using assms(1) by (simp add: numberOfChannels_def)
  then have imp: "length ?imp = L" "\<forall>j < L. \<exists>v. ?imp ! j = Fin v"
    using assms(2) by (auto simp: list_all_length isFinite_iff)
  have dry: "for_range 0 (length (replicate n (Fin 0)))
       (\<lambda>i out. out[i := get (replicate n (Fin 0)) i * Fin (1 - wetDry)]) ?z = ?z"
    by (rule for_range_fixed) simp
  have inner: "for_range 0 (min L (m - i))
       (\<lambda>j out. out[i + j := get out (i + j) + Fin 0 * get ?imp j * Fin wetDry])
       ?z = ?z" for i
  proof (rule for_range_invariant_mem [where P = "\<lambda>s. s = ?z"], goal_cases)
    case 1
    show ?case by simp
  next
    case (2 j s)
    then have j: "j < L" "i + j < m" by auto
    obtain v where v: "?imp ! j = Fin v" using imp(2) j(1) by blast
    have "get ?imp j = Fin v" using v j(1) imp(1) by (simp add: get_def)
    then show ?case using 2 j by simp
  qed
  have wet: "for_range 0 (length (replicate n (Fin 0)))
       (\<lambda>i out. for_range 0 (min L (length out - i))
           (\<lambda>j out. out[i + j := get out (i + j) + get (replicate n (Fin 0)) i * get ?imp j * Fin wetDry])
           out) ?z = ?z"
    by (rule for_range_invariant_mem [where P = "\<lambda>s. s = ?z"]) (simp_all add: inner)
  show ?thesis
    unfolding reverb_channel_def Let_def dry using wet by simp
qed

lemma peaks_from_silence:
  "peaks_from (replicate n (Fin 0)) rate windowSize (Fin 0) i = []"
proof (induction "replicate n (Fin 0) :: jsnum list" rate windowSize "Fin 0" i
    rule: peaks_from.induct)
  case (1 rate windowSize i)
  show ?case
  proof (cases "i + windowSize < length (replicate n (Fin 0) :: jsnum list)")
    case False
    then show ?thesis by (subst peaks_from.simps) (simp only: if_False)
  next
    case True
    then have i: "i < n" by simp
    let ?acc = "Fin 0 * Fin 0.3 < Math_abs (get (replicate n (Fin 0)) i) \<and>
       list_all (\<lambda>j. \<not> (j \<noteq> i \<and> Math_abs (get (replicate n (Fin 0)) i)
                                   < Math_abs (get (replicate n (Fin 0)) j)))
         [i - windowSize..<i + windowSize]"
    have nacc: "\<not> ?acc" using i by simp
    have "peaks_from (replicate n (Fin 0)) rate windowSize (Fin 0) i =
        peaks_from (replicate n (Fin 0)) rate windowSize (Fin 0) (i + 1)"
      using True nacc by (subst peaks_from.simps) (simp only: Let_def if_True if_False simp_thms)
    then show ?thesis using "1.hyps"(2) [OF True refl] nacc by simp
  qed
qed

lemma findSignificantPeaks_silence:
  "findSignificantPeaks (replicate n (Fin 0)) rate = []"
proof -
  have "for_range 0 (length (replicate n (Fin 0) :: jsnum list))
          (\<lambda>i maxValue. Math_max maxValue (Math_abs (get (replicate n (Fin 0)) i))) (Fin 0) = Fin 0"
    by (rule for_range_fixed) simp
  then show ?thesis
    by (simp add: findSignificantPeaks_def Let_def peaks_from_silence)
qed

lemma findMainPeak_silence: "findMainPeak (replicate n (Fin 0)) = (0, Fin 0)"
  unfolding findMainPeak_def
  by (rule for_range_fixed) simp

lemma findDecayIndex_silence: "findDecayIndex (replicate n (Fin 0)) 0 (Fin 0) = 0"
proof -
  have "find (\<lambda>i. Math_abs (get (replicate n (Fin 0)) i) < Fin 0 * Fin 0.25) [0..<n] = None"
    by (simp add: find_None_iff)
  then show ?thesis by (simp add: findDecayIndex_def)
qed

lemma sustainLevelOf_silence: "sustainLevelOf (replicate n (Fin 0)) 0 = Fin 0"
proof -
  have sum: "for_range a (min b (length (replicate n (Fin 0) :: jsnum list)))
          (\<lambda>i sustainLevel. sustainLevel + Math_abs (get (replicate n (Fin 0)) i)) (Fin 0) = Fin 0"
    (is "?sum a b = _") for a b
    by (rule for_range_fixed) simp
  have z: "Fin 0 / Fin w = Fin 0" if "w \<noteq> 0" for w
    using that by simp
  show ?thesis
    unfolding sustainLevelOf_def Let_def sum by (rule z) simp
qed

lemma energyOf_silence: "0 < n \<Longrightarrow> energyOf (replicate n (Fin 0)) = Fin 0"
proof -
  assume n: "0 < n"
  have "for_range 0 (length (replicate n (Fin 0) :: jsnum list))
          (\<lambda>i energy. energy + get (replicate n (Fin 0)) i * get (replicate n (Fin 0)) i) (Fin 0)
        = Fin 0"
    by (rule for_range_fixed) simp
  then show ?thesis using n by (simp add: energyOf_def)
qed

lemma zeroCrossingsOf_silence: "zeroCrossingsOf (replicate n (Fin 0)) = 0"
  unfolding zeroCrossingsOf_def
  by (rule for_range_fixed) simp

lemma extractFeatures_silence:
  assumes "0 < k" "0 < n" "0 < sr"
  shows "\<exists>f. extractFeatures (silence k n sr) = Inr f \<and>
     attackTime f = Fin 0 \<and> decayTime f = Fin 0 \<and> sustainLevel f = Fin 0 \<and>
     isFinite (releaseTime f) \<and> energy f = Fin 0 \<and> spectralCentroid f = Fin 0 \<and>
     peakValue f = Fin 0 \<and> peakIndex f = 0 \<and> significantPeaks f = []"
  using assms
  by (simp add: extractFeatures_def silence_def numberOfChannels_def Let_def
      findSignificantPeaks_silence findMainPeak_silence findDecayIndex_silence
      sustainLevelOf_silence energyOf_silence zeroCrossingsOf_silence)

lemma modifyFeatures_fields:
  "\<exists>c1 c2 c3 c4 c5 c6.
     attackTime (fst (modifyFeatures rng f amount focus isLoop)) = attackTime f * Fin c1 \<and>
     decayTime (fst (modifyFeatures rng f amount focus isLoop)) = decayTime f * Fin c2 \<and>
     sustainLevel (fst (modifyFeatures rng f amount focus isLoop)) = sustainLevel f * Fin c3 \<and>
     releaseTime (fst (modifyFeatures rng f amount focus isLoop)) = releaseTime f * Fin c4 \<and>
     spectralCentroid (fst (modifyFeatures rng f amount focus isLoop)) = spectralCentroid f * Fin c5 \<and>
     energy (fst (modifyFeatures rng f amount focus isLoop)) = energy f * Fin c6 \<and>
     peakValue (fst (modifyFeatures rng f amount focus isLoop)) = peakValue f \<and>
     peakIndex (fst (modifyFeatures rng f amount focus isLoop)) = peakIndex f \<and>
     (significantPeaks f = [] \<longrightarrow>
        significantPeaks (fst (modifyFeatures rng f amount focus isLoop)) = [])"
  by (simp add: modifyFeatures_def randomize_def Let_def case_prod_beta) blast

lemma release_window: "0 < n \<Longrightarrow> real (nat \<lfloor>real n * 0.7\<rfloor>) < real n"
proof -
  assume n: "0 < n"
  have "\<lfloor>real n * 0.7\<rfloor> \<le> real n * 0.7" by (rule of_int_floor_le)
  moreover have "real n * 0.7 < real n" using n by simp
  moreover have "0 \<le> \<lfloor>real n * 0.7\<rfloor>" by simp
  ultimately show ?thesis by simp
qed

lemma processOneShot_silence:
  assumes "attackTime f = Fin 0" "peakValue f = Fin 0" "decayTime f = Fin 0"
    and "sustainLevel f = Fin s" "releaseTime f = Fin r" and "0 < n"
  shows "processOneShot f (replicate n (Fin 0)) (replicate n (Fin 0)) = replicate n (Fin 0)"
proof -
  define rs where "rs = nat \<lfloor>real n * 0.7\<rfloor>"
  have w: "real n - real rs \<noteq> 0"
    using release_window [OF assms(6)] by (simp add: rs_def)
  show ?thesis
    unfolding processOneShot_def Let_def length_replicate rs_def [symmetric]
  proof (rule for_range_fixed, goal_cases)
    case (1 i)
    then show ?case
      using w by (simp add: assms(1-5) minus_jsnum_def)
  qed
qed

lemma processLoopAudio_silence:
  assumes "significantPeaks f = []"
  shows "processLoopAudio f (replicate n (Fin 0)) (replicate n (Fin 0)) = replicate n (Fin 0)"
proof -
  have "for_range 0 (length (replicate n (Fin 0) :: jsnum list))
          (\<lambda>i out. out[i := get (replicate n (Fin 0)) i]) (replicate n (Fin 0)) =
        replicate n (Fin 0)"
    by (rule for_range_fixed) simp
  then show ?thesis
    by (simp add: processLoopAudio_def Let_def assms)
qed

lemma postProcess_silence:
  assumes "energy f = Fin 0" "spectralCentroid f = Fin 0" "0 < n"
  shows "postProcess f (replicate n (Fin 0)) = replicate n (Fin 0)"
proof -
  have e: "energyRatio f = Fin 0" by (simp add: energyRatio_def assms(1))
  have c: "spectralRatio f = Fin 0" by (simp add: spectralRatio_def assms(2))
  have scaled: "for_range 0 (length (replicate n (Fin 0) :: jsnum list))
          (\<lambda>i out. out[i := get out i * Fin 0]) (replicate n (Fin 0)) = replicate n (Fin 0)"
    by (rule for_range_fixed) simp
  have lp: "for_range 1 (length (replicate n (Fin 0) :: jsnum list))
          (\<lambda>i (d, prevSample).
              let v = get d i * Fin 0 + prevSample * (Fin 1 - Fin 0) in (d[i := v], v))
          (replicate n (Fin 0), get (replicate n (Fin 0)) 0) = (replicate n (Fin 0), Fin 0)"
    using assms(3)
    by (intro for_range_invariant_mem [where P = "\<lambda>s. s = (replicate n (Fin 0), Fin 0)"])
       (simp_all add: minus_jsnum_def Let_def)
  show ?thesis
    unfolding postProcess_def Let_def e c scaled
    unfolding applySpectralAdjustment_def lp
    by simp
qed

lemma silent_effect:
  assumes "0 < k" "0 < m" "0 < sr"
    and "\<And>ch. ch < k \<Longrightarrow> body ch (replicate n (Fin 0)) (replicate m (Fin 0)) = replicate m (Fin 0)"
  shows "(case createBuffer (numberOfChannels (silence k n sr)) m (sampleRate (silence k n sr)) of
            Inl e \<Rightarrow> Inl e
          | Inr processedBuffer \<Rightarrow> Inr (each_channel body (silence k n sr) processedBuffer))
         = Inr (silence k m sr)"
proof -
  have "map (\<lambda>channel. body channel (replicate k (replicate n (Fin 0)) ! channel)
                 (replicate k (replicate m (Fin 0)) ! channel)) [0..<k]
        = replicate k (replicate m (Fin 0))"
    by (rule nth_equalityI) (simp_all add: assms(4))
  then show ?thesis
    using assms(1-3)
    by (simp add: createBuffer_def silence_def numberOfChannels_def each_channel_def)
qed

lemma synthesizeAudio_silence:
  assumes "0 < k" "0 < n" "0 < sr"
    and "attackTime f = Fin 0" "peakValue f = Fin 0" "decayTime f = Fin 0"
    and "sustainLevel f = Fin s" "releaseTime f = Fin r"
    and "energy f = Fin 0" "spectralCentroid f = Fin 0" "significantPeaks f = []"
  shows "synthesizeAudio (silence k n sr) f isLoop = Inr (silence k n sr)"
proof -
  have "buf_length (silence k n sr) = n" by (simp add: silence_def)
  then show ?thesis
    unfolding synthesizeAudio_def
    using silent_effect [OF assms(1-3), of "\<lambda>channel inputData outputData.
        postProcess f (if isLoop then processLoopAudio f inputData outputData
                       else processOneShot f inputData outputData)" n]
    by (simp add: processLoopAudio_silence [OF assms(11)]
        processOneShot_silence [OF assms(4,5,6,7,8) assms(2)]
        postProcess_silence [OF assms(9,10) assms(2)])
qed

lemma generateVariation_silence:
  assumes "0 < k" "0 < n" "0 < sr"
  shows "\<exists>rng'. generateVariation rng (silence k n sr) amount focus = Inr (silence k n sr, rng')"
proof -
  obtain f where f: "extractFeatures (silence k n sr) = Inr f"
     "attackTime f = Fin 0" "decayTime f = Fin 0" "sustainLevel f = Fin 0"
     "isFinite (releaseTime f)" "energy f = Fin 0" "spectralCentroid f = Fin 0"
     "peakValue f = Fin 0" "peakIndex f = 0" "significantPeaks f = []"
    using extractFeatures_silence [OF assms] by blast
  let ?m = "fst (modifyFeatures rng f amount focus (isLikelyLoop f))"
  obtain r where r: "releaseTime f = Fin r" using f(5) by (auto simp: isFinite_iff)
  obtain c1 c2 c3 c4 c5 c6 where m:
     "attackTime ?m = attackTime f * Fin c1" "decayTime ?m = decayTime f * Fin c2"
     "sustainLevel ?m = sustainLevel f * Fin c3" "releaseTime ?m = releaseTime f * Fin c4"
     "spectralCentroid ?m = spectralCentroid f * Fin c5" "energy ?m = energy f * Fin c6"
     "peakValue ?m = peakValue f" "peakIndex ?m = peakIndex f"
     "significantPeaks f = [] \<longrightarrow> significantPeaks ?m = []"
    using modifyFeatures_fields [of rng f amount focus "isLikelyLoop f"] by blast
  have "synthesizeAudio (silence k n sr) ?m (isLikelyLoop f) = Inr (silence k n sr)"
    by (rule synthesizeAudio_silence [OF assms, where s = 0 and r = "r * c4"])
       (simp_all add: m f r)
  then show ?thesis
    by (simp add: generateVariation_def f(1) bind_err_def Let_def case_prod_beta)
qed

lemma silence_fields [simp]:
  "buf_length (silence k n sr) = n" "sampleRate (silence k n sr) = sr"
  "channelData (silence k n sr) = replicate k (replicate n (Fin 0))"
  "numberOfChannels (silence k n sr) = k"
  by (simp_all add: silence_def numberOfChannels_def)

lemma silent_wf_is_silence:
  assumes "wf_buffer b" "silent b"
  shows "b = silence (length (channelData b)) (buf_length b) (sampleRate b)"
proof -
  have "channelData b = replicate (length (channelData b)) (replicate (buf_length b) (Fin 0))"
  proof (rule nth_equalityI, goal_cases)
    case 1
    show ?case by simp
  next
    case (2 c)
    then have "channelData b ! c \<in> set (channelData b)" by simp
    then have "length (channelData b ! c) = buf_length b"
        "\<forall>x \<in> set (channelData b ! c). x = Fin 0"
      using assms by (auto simp: wf_buffer_def silent_def list_all_iff)
    then have "channelData b ! c = replicate (buf_length b) (Fin 0)"
      by (metis replicate_length_same)
    then show ?case using 2 by simp
  qed
  then show ?thesis by (simp add: silence_def)
qed

lemma createBuffer_silence:
  "0 < k \<Longrightarrow> 0 < m \<Longrightarrow> 0 < sr \<Longrightarrow> createBuffer k m sr = Inr (silence k m sr)"
  by (simp add: createBuffer_def silence_def)

lemma silence_all_finite [simp]: "all_finite (silence k n sr)"
  by (simp add: all_finite_def silence_def list_all_iff)

lemma processTransientEnhancement_silence:
  assumes "0 < k" "0 < n" "0 < sr"
  shows "processTransientEnhancement (silence k n sr) attackGain sustainGain = Inr (silence k n sr)"
  unfolding processTransientEnhancement_def
  using silent_effect [OF assms, of "\<lambda>channel. transient_channel (silence k n sr) attackGain sustainGain" n]
  by (simp add: transient_channel_silence)

lemma processPitchShift_silence:
  assumes "0 < k" "0 < n" "0 < sr"
  shows "processPitchShift (silence k n sr) semitones = Inr (silence k n sr)"
  unfolding processPitchShift_def Let_def
  using silent_effect [OF assms, of "\<lambda>channel. pitchShift_channel (Math_pow2 (semitones / 12))" n]
  by (simp add: pitchShift_channel_silence)

lemma processBitCrush_silence:
  assumes "0 < k" "0 < n" "0 < sr" "1 \<le> bits \<and> bits \<le> 1023"
  shows "processBitCrush (silence k n sr) bits = Inr (silence k n sr)"
  unfolding processBitCrush_def
  using silent_effect [OF assms(1-3), of "\<lambda>channel. bitCrush_channel (Math_pow2_int bits)" n]
  by (simp add: bitCrush_channel_silence [OF assms(4)])

lemma processDistortion_silence:
  assumes "0 < k" "0 < n" "0 < sr"
  shows "processDistortion (silence k n sr) amount = Inr (silence k n sr)"
  unfolding processDistortion_def
  using silent_effect [OF assms, of "\<lambda>channel. distortion_channel amount" n]
  by (simp add: distortion_channel_silence)

lemma processDelay_silence:
  assumes "0 < k" "0 < n" "0 < sr"
  shows "\<exists>m. 0 < m \<and> processDelay (silence k n sr) delayTime feedback = Inr (silence k m sr)"
proof -
  let ?m = "buf_length (silence k n sr)
      + nat \<lfloor>sampleRate (silence k n sr)
              * (if buf_duration (silence k n sr) > 2.0 then 0.5 else 1.0)\<rfloor>"
  have m: "0 < ?m" using assms(2) by simp
  have "processDelay (silence k n sr) delayTime feedback = Inr (silence k ?m sr)"
    unfolding processDelay_def Let_def
    by (rule silent_effect [OF assms(1) m assms(3)]) (simp add: delay_channel_silence)
  then show ?thesis using m by blast
qed

lemma processReverb_silence:
  assumes "0 < k" "0 < n" "0 < sr" "1 \<le> sr * roomSize"
  shows "\<exists>m rng'. 0 < m \<and>
           processReverb rng (silence k n sr) roomSize wetDry = Inr (silence k m sr, rng')"
proof -
  let ?m = "buf_length (silence k n sr)
      + nat \<lfloor>sampleRate (silence k n sr)
              * (if buf_duration (silence k n sr) > 2.0 then 0.5 else 1.0)\<rfloor>"
  let ?L = "nat \<lfloor>sampleRate (silence k n sr) * roomSize\<rfloor>"
  let ?blank = "\<lparr>buf_length = ?L, sampleRate = sampleRate (silence k n sr),
           channelData = replicate 2 (replicate ?L (Fin 0))\<rparr>"
  let ?imp = "fst (fill_impulse ?L rng ?blank)"
  have m: "0 < ?m" using assms(2) by simp
  have "1 \<le> \<lfloor>sr * roomSize\<rfloor>" using assms(4) by (simp add: le_floor_iff)
  then have L: "0 < ?L" by simp
  have imp: "createBuffer 2 ?L (sampleRate (silence k n sr)) = Inr ?blank"
    using L assms(3) by (simp add: createBuffer_def)
  have fin: "length (channelData ?imp) = 2 \<and>
      (\<forall>c \<in> set (channelData ?imp). length c = ?L \<and> list_all isFinite c)"
    by (rule fill_impulse_finite) (simp_all add: list_all_iff)
  have eff: "(case createBuffer (numberOfChannels (silence k n sr)) ?m (sampleRate (silence k n sr)) of
            Inl e \<Rightarrow> Inl e
          | Inr processedBuffer \<Rightarrow>
              Inr (each_channel (reverb_channel ?imp ?L wetDry) (silence k n sr) processedBuffer))
         = Inr (silence k ?m sr)"
    by (rule silent_effect [OF assms(1) m assms(3)])
       (rule reverb_channel_silence, use fin in auto)
  have cb: "createBuffer (numberOfChannels (silence k n sr)) ?m (sampleRate (silence k n sr))
      = Inr (silence k ?m sr)"
    using createBuffer_silence [OF assms(1) m assms(3)] by simp
  have eff': "each_channel (reverb_channel ?imp ?L wetDry) (silence k n sr) (silence k ?m sr)
      = silence k ?m sr"
    using eff unfolding cb by simp
  have "processReverb rng (silence k n sr) roomSize wetDry =
      Inr (silence k ?m sr, snd (fill_impulse ?L rng ?blank))"
    unfolding processReverb_def Let_def cb imp
    by (simp only: sum.case case_prod_beta eff')
  then show ?thesis using m by blast
qed

lemma silence_silent [simp]: "silent (silence k n sr)"
  by (simp add: silent_def list_all_iff)

lemma extreme_silence:
  assumes "0 < k" "0 < n" "0 < sr" "1 \<le> bits \<and> bits \<le> 1023"
  shows "\<exists>m. 0 < m \<and>
          (if isLoop
           then bind_err (processDelay (silence k n sr) dt fb) (\<lambda>delayed. processDistortion delayed a1)
           else bind_err (processDistortion (silence k n sr) a2)
                  (\<lambda>distorted. processBitCrush distorted bits))
          = Inr (silence k m sr)"
proof (cases isLoop)
  case True
  obtain m where m: "0 < m" "processDelay (silence k n sr) dt fb = Inr (silence k m sr)"
    using processDelay_silence [OF assms(1-3)] by blast
  show ?thesis
    using True m processDistortion_silence [OF assms(1) m(1) assms(3)]
    by (auto simp: bind_err_Inr)
next
  case False
  show ?thesis
    using False assms(2) processDistortion_silence [OF assms(1-3)]
      processBitCrush_silence [OF assms]
    by (auto simp: bind_err_Inr)
qed

lemma hook_generateVariations_silence:
  assumes k: "0 < k" and n: "0 < n" and sr: "10 \<le> sr"
  shows "\<exists>vs rng'. generateVariations rng (Some (silence k n sr)) mlBalance isLoop = Inr (vs, rng') \<and>
           list_all all_finite vs \<and> list_all silent vs"
proof -
  let ?s = "silence k n sr"
  have sr0: "0 < sr" using sr by simp
  note gv = generateVariation_silence [OF k n sr0]
  obtain r1 where s1: "generateVariation rng ?s (0.6 * mlBalance) attack = Inr (?s, r1)"
    using gv by blast
  obtain r2 where s2: "generateVariation r1 ?s (0.7 * mlBalance) decay = Inr (?s, r2)"
    using gv by blast
  obtain r3 where s3: "generateVariation r2 ?s (0.65 * mlBalance) sustain = Inr (?s, r3)"
    using gv by blast
  obtain r4 where s4: "generateVariation r3 ?s (0.7 * mlBalance) release = Inr (?s, r4)"
    using gv by blast
  obtain r5 where s5: "generateVariation r4 ?s (0.8 * mlBalance) tone = Inr (?s, r5)"
    using gv by blast
  have s5b: "(if mlBalance < 0.7 then processBitCrush ?s 10 else Inr ?s) = Inr ?s"
    using processBitCrush_silence [OF k n sr0, of 10] by simp
  have s6: "processPitchShift ?s (if isLoop then 1 else 3) = Inr ?s"
    by (rule processPitchShift_silence [OF k n sr0])
  obtain r6 where s6b: "generateVariation r5 ?s (0.5 * mlBalance) balanced = Inr (?s, r6)"
    using gv by blast
  have room: "1 \<le> sr * (if isLoop then 0.1 else 0.3)"
    using sr by simp
  obtain m r7 where m: "0 < m" and s7: "processReverb r6 ?s (if isLoop then 0.1 else 0.3)
        (if isLoop then 0.3 else 0.6) = Inr (silence k m sr, r7)"
    using processReverb_silence [OF k n sr0 room] by blast
  obtain r8 where s7b: "generateVariation r7 (silence k m sr) (0.4 * mlBalance)
        (if isLoop then sustain else release) = Inr (silence k m sr, r8)"
    using generateVariation_silence [OF k m sr0] by blast
  have "\<exists>m. 0 < m \<and> (if isLoop
        then bind_err (processDelay ?s 0.125 0.3) (\<lambda>delayed. processDistortion delayed 3)
        else bind_err (processDistortion ?s 8) (\<lambda>distorted. processBitCrush distorted 6))
        = Inr (silence k m sr)"
    by (rule extreme_silence [OF k n sr0]) simp
  then obtain m' where m': "0 < m'" and s8: "(if isLoop
        then bind_err (processDelay ?s 0.125 0.3) (\<lambda>delayed. processDistortion delayed 3)
        else bind_err (processDistortion ?s 8) (\<lambda>distorted. processBitCrush distorted 6))
        = Inr (silence k m' sr)"
    by blast
  obtain r9 where s8b: "generateVariation r8 (silence k m' sr) (0.9 * mlBalance) balanced
        = Inr (silence k m' sr, r9)"
    using generateVariation_silence [OF k m' sr0] by blast
  have "generateVariations rng (Some ?s) mlBalance isLoop =
      Inr ([?s, ?s, ?s, ?s, ?s, ?s, silence k m sr, silence k m' sr], r9)"
    by (simp only: generateVariations_def option.case prod.case bind_err_Inr
        s1 s2 s3 s4 s5 s5b s6 s6b s7 s7b s8 s8b)
  then show ?thesis by simp
qed

lemma AudioProcessor_generateVariations_silence:
  assumes k: "0 < k" and n: "0 < n" and sr: "20 \<le> sr"
  shows "\<exists>vs rng'. AudioProcessor_generateVariations rng (Some (silence k n sr)) isLoop = Inr (vs, rng') \<and>
           list_all all_finite vs \<and> list_all silent vs"
proof -
  let ?s = "silence k n sr"
  have sr0: "0 < sr" using sr by simp
  have s1: "processTransientEnhancement ?s (if isLoop then 1.1 else 1.3)
        (if isLoop then 0.95 else 0.85) = Inr ?s"
    by (rule processTransientEnhancement_silence [OF k n sr0])
  have s2: "processPitchShift ?s (if isLoop then 1 else 3) = Inr ?s"
    by (rule processPitchShift_silence [OF k n sr0])
  have s3: "processPitchShift ?s (if isLoop then - 1 else - 3) = Inr ?s"
    by (rule processPitchShift_silence [OF k n sr0])
  have s4: "processBitCrush ?s (if isLoop then 10 else 8) = Inr ?s"
    by (rule processBitCrush_silence [OF k n sr0]) simp
  have room5: "1 \<le> sr * (if isLoop then 0.1 else 0.3)"
    using sr by simp
  obtain m5 r1 where s5: "processReverb rng ?s (if isLoop then 0.1 else 0.3)
        (if isLoop then 0.3 else 0.5) = Inr (silence k m5 sr, r1)"
    using processReverb_silence [OF k n sr0 room5] by blast
  obtain m6 where s6: "processDelay ?s (if isLoop then 0.125 else 0.25)
        (if isLoop then 0.3 else 0.4) = Inr (silence k m6 sr)"
    using processDelay_silence [OF k n sr0] by blast
  have s7: "processPitchShift ?s (if isLoop then 0.5 else 1) = Inr ?s"
    by (rule processPitchShift_silence [OF k n sr0])
  have room7: "1 \<le> sr * (if isLoop then 0.05 else 0.1)"
    using sr by simp
  obtain m7 r2 where s7b: "processReverb r1 ?s (if isLoop then 0.05 else 0.1)
        (if isLoop then 0.2 else 0.3) = Inr (silence k m7 sr, r2)"
    using processReverb_silence [OF k n sr0 room7] by blast
  have "\<exists>m. 0 < m \<and> (if isLoop
        then bind_err (processDelay ?s 0.125 0.3) (\<lambda>delayed. processDistortion delayed 3)
        else bind_err (processDistortion ?s 10) (\<lambda>distorted. processBitCrush distorted 6))
        = Inr (silence k m sr)"
    by (rule extreme_silence [OF k n sr0]) simp
  then obtain m8 where s8: "(if isLoop
        then bind_err (processDelay ?s 0.125 0.3) (\<lambda>delayed. processDistortion delayed 3)
        else bind_err (processDistortion ?s 10) (\<lambda>distorted. processBitCrush distorted 6))
        = Inr (silence k m8 sr)"
    by blast
  have "AudioProcessor_generateVariations rng (Some ?s) isLoop =
      Inr ([?s, ?s, ?s, ?s, silence k m5 sr, silence k m6 sr, silence k m7 sr, silence k m8 sr], r2)"
    by (simp only: AudioProcessor_generateVariations_def option.case prod.case bind_err_Inr
        s1 s2 s3 s4 s5 s6 s7 s7b s8)
  then show ?thesis by simp
qed

text \<open>
  Claim C3. On a silent buffer of the platform both recipes run to their end without an
  exception, for every random source, balance and loop flag, and every sample of every
  variation is finite; every variation is in fact silent again. Feature extraction,
  mutation, envelope synthesis and each of the six effects take part: no division by zero
  and no read outside an array occurs on the way.
\<close>

theorem silent_pipeline_finite:
  assumes "wf_buffer sample" and "silent sample" and "20 \<le> sampleRate sample"
  shows "(\<exists>variations rng'.
            generateVariations rng (Some sample) mlBalance isLoop = Inr (variations, rng') \<and>
            list_all all_finite variations \<and> list_all silent variations) \<and>
         (\<exists>variations rng'.
            AudioProcessor_generateVariations rng (Some sample) isLoop = Inr (variations, rng') \<and>
            list_all all_finite variations \<and> list_all silent variations)"
proof -
  let ?k = "length (channelData sample)" and ?n = "buf_length sample" and ?sr = "sampleRate sample"
  have eq: "sample = silence ?k ?n ?sr"
    using assms(1,2) by (rule silent_wf_is_silence)
  have k: "0 < ?k" and n: "0 < ?n"
    using assms(1) by (simp_all add: wf_buffer_def)
  have sr: "10 \<le> ?sr" using assms(3) by simp
  show ?thesis
    using hook_generateVariations_silence [OF k n sr, of rng mlBalance isLoop]
      AudioProcessor_generateVariations_silence [OF k n assms(3), of rng isLoop]
    unfolding eq [symmetric] by blast
qed

theorem silent_pipeline_finite_witness:
  "wf_buffer \<lparr>buf_length = 3, sampleRate = 44100, channelData = [[Fin 0, Fin 0, Fin 0]]\<rparr> \<and>
   silent \<lparr>buf_length = 3, sampleRate = 44100, channelData = [[Fin 0, Fin 0, Fin 0]]\<rparr> \<and>
   (\<exists>variations rng'.
      generateVariations (\<lambda>n. 1 / 4)
        (Some \<lparr>buf_length = 3, sampleRate = 44100, channelData = [[Fin 0, Fin 0, Fin 0]]\<rparr>)
        1 False = Inr (variations, rng') \<and>
      list_all all_finite variations)"
proof -
  let ?b = "\<lparr>buf_length = 3, sampleRate = 44100, channelData = [[Fin 0, Fin 0, Fin 0]]\<rparr>"
  have wf: "wf_buffer ?b" by (simp add: wf_buffer_def)
  have si: "silent ?b" by (simp add: silent_def)
  have sr: "20 \<le> sampleRate ?b" by simp
  show ?thesis
    using wf si silent_pipeline_finite [OF wf si sr, of "\<lambda>n. 1 / 4" 1 False] by blast
qed

subsection \<open>Reproducibility\<close>

text \<open>
  Transient enhancement, pitch shift, bit-depth reduction, distortion and delay are functions
  of the buffer and the parameters alone. The reverb and the mutation of the features read
  \<open>Math.random\<close>. With the amount \<open>0\<close> the mutation multiplies every feature by
  \<open>1 + u * 0 = 1\<close>: the numbers drawn do not reach the result.
\<close>


lemma modify_peaks_zero: "fst (modify_peaks 0 rng peaks) = peaks"
  by (induction peaks arbitrary: rng)
     (simp_all add: Let_def case_prod_beta randomize_def)

lemma modifyFeatures_zero: "fst (modifyFeatures rng f 0 focus isLoop) = f"
  by (simp add: modifyFeatures_def randomize_def Let_def case_prod_beta modify_peaks_zero)

lemma generateVariation_zero:
  assumes "wf_buffer b"
  shows "\<exists>out. wf_buffer out \<and> sampleRate out = sampleRate b \<and>
           (\<forall>rng. \<exists>rng'. generateVariation rng b 0 focus = Inr (out, rng'))"
proof -
  have "0 < numberOfChannels b" using assms by (simp add: wf_buffer_def numberOfChannels_def)
  then obtain f where f: "extractFeatures b = Inr f"
    using extractFeatures_fields by blast
  obtain out where out: "synthesizeAudio b f (isLikelyLoop f) = Inr out" "wf_buffer out"
      "sampleRate out = sampleRate b"
    using synthesizeAudio_ok [OF assms] by blast
  have "\<exists>rng'. generateVariation rng b 0 focus = Inr (out, rng')" for rng
    by (simp add: generateVariation_def f bind_err_def Let_def case_prod_beta
        modifyFeatures_zero out(1))
  then show ?thesis using out(2,3) by blast
qed


lemma Math_random_constant [simp]: "Math_random (constant_rng u) = (u, constant_rng u)"
  by (simp add: Math_random_def constant_rng_def)

lemma reverb_first_sample:
  "map_sum id (\<lambda>p. channelData (fst p) ! 0 ! 0)
     (processReverb (constant_rng u)
        \<lparr>buf_length = 1, sampleRate = 8000, channelData = [[Fin 1]]\<rparr> 0.000125 0.5) =
   Inr (Fin u)"
proof -
  have L: "nat \<lfloor>(8000::real) * 0.000125\<rfloor> = 1" by simp
  have n: "1 + nat \<lfloor>(8000::real) * 1.0\<rfloor> = 8001" by simp
  have d: "\<not> buf_duration \<lparr>buf_length = 1, sampleRate = 8000, channelData = [[Fin 1]]\<rparr> > 2.0"
    by (simp add: buf_duration_def)
  have u1: "[0..<1] = [0]" by (simp add: upt_rec)
  have u2: "[0..<2] = [0, 1]" by (simp add: upt_rec)
  show ?thesis
    unfolding processReverb_def Let_def
    apply (simp add: d L createBuffer_def numberOfChannels_def fill_impulse_def for_range_def
        u1 u2 each_channel_def reverb_channel_def get_def Let_def case_prod_beta)
    apply (simp add: field_simps)
    done
qed

text \<open>
  Claim C8 as stated fails for the reverb. On the one-sample buffer \<open>[1]\<close> at \<open>8000\<close> Hz with
  a room of one impulse sample and the mix \<open>0.5\<close>, the first output sample is the number
  drawn by \<open>Math.random\<close>: two applications with the same buffer and the same parameters that
  draw \<open>0\<close> and \<open>0.5\<close> return different buffers.
\<close>

theorem reverb_not_deterministic_counterexample:
  "map_sum id fst
     (processReverb (constant_rng 0)
        \<lparr>buf_length = 1, sampleRate = 8000, channelData = [[Fin 1]]\<rparr> 0.000125 0.5) \<noteq>
   map_sum id fst
     (processReverb (constant_rng (1 / 2))
        \<lparr>buf_length = 1, sampleRate = 8000, channelData = [[Fin 1]]\<rparr> 0.000125 0.5)"
proof
  let ?b = "\<lparr>buf_length = 1, sampleRate = 8000, channelData = [[Fin 1]]\<rparr>"
  assume eq: "map_sum id fst (processReverb (constant_rng 0) ?b 0.000125 0.5) =
      map_sum id fst (processReverb (constant_rng (1 / 2)) ?b 0.000125 0.5)"
  have "map_sum id (\<lambda>p. channelData (fst p) ! 0 ! 0) x =
        map_sum id (\<lambda>b. channelData b ! 0 ! 0) (map_sum id fst x)"
    for x :: "error + AudioBuffer \<times> rng"
    by (cases x) simp_all
  then have "map_sum id (\<lambda>p. channelData (fst p) ! 0 ! 0) (processReverb (constant_rng 0) ?b 0.000125 0.5)
      = map_sum id (\<lambda>p. channelData (fst p) ! 0 ! 0) (processReverb (constant_rng (1 / 2)) ?b 0.000125 0.5)"
    using eq by simp
  then show False
    unfolding reverb_first_sample by simp
qed


lemma hook_reproducible:
  assumes wf: "wf_buffer sample" and sr: "10 \<le> sampleRate sample"
  shows "\<exists>vs1 vs2 r1 r2.
     generateVariations rng1 (Some sample) 0 isLoop = Inr (vs1, r1) \<and>
     generateVariations rng2 (Some sample) 0 isLoop = Inr (vs2, r2) \<and>
     length vs1 = 8 \<and> length vs2 = 8 \<and> take 6 vs1 = take 6 vs2 \<and> vs1 ! 7 = vs2 ! 7"
proof -
  obtain v where v: "\<And>rng. \<exists>rng'. generateVariation rng sample 0 attack = Inr (v 1, rng')"
      "\<And>rng. \<exists>rng'. generateVariation rng sample 0 decay = Inr (v 2, rng')"
      "\<And>rng. \<exists>rng'. generateVariation rng sample 0 sustain = Inr (v 3, rng')"
      "\<And>rng. \<exists>rng'. generateVariation rng sample 0 release = Inr (v 4, rng')"
      and tv: "\<And>rng. \<exists>rng'. generateVariation rng sample 0 tone = Inr (v 5, rng')"
      and wt: "wf_buffer (v (5::nat))"
  proof -
    obtain a where a: "\<forall>rng. \<exists>rng'. generateVariation rng sample 0 attack = Inr (a, rng')"
      using generateVariation_zero [OF wf] by blast
    obtain b where b: "\<forall>rng. \<exists>rng'. generateVariation rng sample 0 decay = Inr (b, rng')"
      using generateVariation_zero [OF wf] by blast
    obtain c where c: "\<forall>rng. \<exists>rng'. generateVariation rng sample 0 sustain = Inr (c, rng')"
      using generateVariation_zero [OF wf] by blast
    obtain d where d: "\<forall>rng. \<exists>rng'. generateVariation rng sample 0 release = Inr (d, rng')"
      using generateVariation_zero [OF wf] by blast
    obtain e where e: "\<forall>rng. \<exists>rng'. generateVariation rng sample 0 tone = Inr (e, rng')"
        "wf_buffer e"
      using generateVariation_zero [OF wf] by blast
    let ?v = "\<lambda>i::nat. if i = 1 then a else if i = 2 then b else if i = 3 then c
                        else if i = 4 then d else e"
    show ?thesis
      by (rule that [of ?v]) (use a b c d e in simp_all)
  qed
  obtain v5 where s5b: "processBitCrush (v 5) 10 = Inr v5"
    using processBitCrush_ok [OF wt] by blast
  obtain ps where s6: "processPitchShift sample (if isLoop then 1 else 3) = Inr ps"
      and wps: "wf_buffer ps"
    using processPitchShift_ok [OF wf] by blast
  obtain v6 where v6: "\<And>rng. \<exists>rng'. generateVariation rng ps 0 balanced = Inr (v6, rng')"
    using generateVariation_zero [OF wps] by blast
  have room: "1 \<le> sampleRate sample * (if isLoop then 0.1 else 0.3)"
    using sr by simp
  obtain ex where s8: "(if isLoop
        then bind_err (processDelay sample 0.125 0.3) (\<lambda>delayed. processDistortion delayed 3)
        else bind_err (processDistortion sample 8) (\<lambda>distorted. processBitCrush distorted 6))
        = Inr ex"
      and wex: "wf_buffer ex"
    using extreme_ok [OF wf] by blast
  obtain v8 where v8: "\<And>rng. \<exists>rng'. generateVariation rng ex 0 balanced = Inr (v8, rng')"
    using generateVariation_zero [OF wex] by blast
  have run: "\<exists>v7 r9. generateVariations rng (Some sample) 0 isLoop =
      Inr ([v 1, v 2, v 3, v 4, v5, v6, v7, v8], r9)" for rng
  proof -
    obtain r1 where s1: "generateVariation rng sample 0 attack = Inr (v 1, r1)"
      using v(1) by blast
    obtain r2 where s2: "generateVariation r1 sample 0 decay = Inr (v 2, r2)"
      using v(2) by blast
    obtain r3 where s3: "generateVariation r2 sample 0 sustain = Inr (v 3, r3)"
      using v(3) by blast
    obtain r4 where s4: "generateVariation r3 sample 0 release = Inr (v 4, r4)"
      using v(4) by blast
    obtain r5 where s5: "generateVariation r4 sample 0 tone = Inr (v 5, r5)"
      using tv by blast
    obtain r6 where s6b: "generateVariation r5 ps 0 balanced = Inr (v6, r6)"
      using v6 by blast
    obtain rv r7 where s7: "processReverb r6 sample (if isLoop then 0.1 else 0.3)
          (if isLoop then 0.3 else 0.6) = Inr (rv, r7)"
        and wrv: "wf_buffer rv"
      using processReverb_ok [OF wf room] by blast
    obtain v7 r8 where s7b: "generateVariation r7 rv 0
          (if isLoop then sustain else release) = Inr (v7, r8)"
      using generateVariation_ok [OF wrv] by blast
    obtain r9 where s8b: "generateVariation r8 ex 0 balanced = Inr (v8, r9)"
      using v8 by blast
    have lt: "(0::real) < 0.7" by simp
    have "generateVariations rng (Some sample) 0 isLoop =
        Inr ([v 1, v 2, v 3, v 4, v5, v6, v7, v8], r9)"
      by (simp only: generateVariations_def option.case prod.case bind_err_Inr mult_zero_right
          lt if_True s1 s2 s3 s4 s5 s5b s6 s6b s7 s7b s8 s8b)
    then show ?thesis by blast
  qed
  from run [of rng1] run [of rng2] show ?thesis
    by (elim exE) (intro exI conjI, assumption, assumption, simp_all)
qed


lemma AudioProcessor_reproducible:
  assumes wf: "wf_buffer buffer" and sr: "20 \<le> sampleRate buffer"
  shows "\<exists>ws1 ws2 q1 q2.
     AudioProcessor_generateVariations rng1 (Some buffer) isLoop = Inr (ws1, q1) \<and>
     AudioProcessor_generateVariations rng2 (Some buffer) isLoop = Inr (ws2, q2) \<and>
     length ws1 = 8 \<and> length ws2 = 8 \<and>
     take 4 ws1 = take 4 ws2 \<and> ws1 ! 5 = ws2 ! 5 \<and> ws1 ! 7 = ws2 ! 7"
proof -
  obtain v1 where s1: "processTransientEnhancement buffer (if isLoop then 1.1 else 1.3)
        (if isLoop then 0.95 else 0.85) = Inr v1"
    using processTransientEnhancement_ok [OF wf] by blast
  obtain v2 where s2: "processPitchShift buffer (if isLoop then 1 else 3) = Inr v2"
    using processPitchShift_ok [OF wf] by blast
  obtain v3 where s3: "processPitchShift buffer (if isLoop then - 1 else - 3) = Inr v3"
    using processPitchShift_ok [OF wf] by blast
  obtain v4 where s4: "processBitCrush buffer (if isLoop then 10 else 8) = Inr v4"
    using processBitCrush_ok [OF wf] by blast
  have room5: "1 \<le> sampleRate buffer * (if isLoop then 0.1 else 0.3)"
    using sr by simp
  obtain v6 where s6: "processDelay buffer (if isLoop then 0.125 else 0.25)
        (if isLoop then 0.3 else 0.4) = Inr v6"
    using processDelay_ok [OF wf] by blast
  obtain ps where s7: "processPitchShift buffer (if isLoop then 0.5 else 1) = Inr ps"
      and wps: "wf_buffer ps" and rps: "sampleRate ps = sampleRate buffer"
    using processPitchShift_ok [OF wf] by blast
  have room7: "1 \<le> sampleRate ps * (if isLoop then 0.05 else 0.1)"
    using sr rps by simp
  obtain v8 where s8: "(if isLoop
        then bind_err (processDelay buffer 0.125 0.3) (\<lambda>delayed. processDistortion delayed 3)
        else bind_err (processDistortion buffer 10) (\<lambda>distorted. processBitCrush distorted 6))
        = Inr v8"
    using extreme_ok [OF wf] by blast
  have run: "\<exists>v5 v7 q. AudioProcessor_generateVariations rng (Some buffer) isLoop =
      Inr ([v1, v2, v3, v4, v5, v6, v7, v8], q)" for rng
  proof -
    obtain v5 r1 where s5: "processReverb rng buffer (if isLoop then 0.1 else 0.3)
          (if isLoop then 0.3 else 0.5) = Inr (v5, r1)"
      using processReverb_ok [OF wf room5] by blast
    obtain v7 r2 where s7b: "processReverb r1 ps (if isLoop then 0.05 else 0.1)
          (if isLoop then 0.2 else 0.3) = Inr (v7, r2)"
      using processReverb_ok [OF wps room7] by blast
    have "AudioProcessor_generateVariations rng (Some buffer) isLoop =
        Inr ([v1, v2, v3, v4, v5, v6, v7, v8], r2)"
      by (simp only: AudioProcessor_generateVariations_def option.case prod.case bind_err_Inr
          s1 s2 s3 s4 s5 s6 s7 s7b s8)
    then show ?thesis by blast
  qed
  from run [of rng1] run [of rng2] show ?thesis
    by (elim exE) (intro exI conjI, assumption, assumption, simp_all)
qed

text \<open>
  Claim C8, as amended. For a loaded buffer of the platform (the rate at least \<open>20\<close> Hz) two
  runs with any two random sources both return eight variations. With the balance \<open>0\<close> the
  hybrid recipe gives the same first six variations and the same eighth one in both runs:
  only the seventh, built on the reverb, may differ. The recipe of the effect library gives
  the same variations at every position except the fifth and the seventh, the two that
  apply the reverb.
\<close>

theorem variations_reproducible_except_reverb:
  assumes "wf_buffer sample" and "20 \<le> sampleRate sample"
  shows "(\<exists>vs1 vs2 r1 r2.
            generateVariations rng1 (Some sample) 0 isLoop = Inr (vs1, r1) \<and>
            generateVariations rng2 (Some sample) 0 isLoop = Inr (vs2, r2) \<and>
            length vs1 = 8 \<and> length vs2 = 8 \<and>
            take 6 vs1 = take 6 vs2 \<and> vs1 ! 7 = vs2 ! 7) \<and>
         (\<exists>ws1 ws2 q1 q2.
            AudioProcessor_generateVariations rng1 (Some sample) isLoop = Inr (ws1, q1) \<and>
            AudioProcessor_generateVariations rng2 (Some sample) isLoop = Inr (ws2, q2) \<and>
            length ws1 = 8 \<and> length ws2 = 8 \<and>
            take 4 ws1 = take 4 ws2 \<and> ws1 ! 5 = ws2 ! 5 \<and> ws1 ! 7 = ws2 ! 7)"
proof -
  have "10 \<le> sampleRate sample" using assms(2) by simp
  from hook_reproducible [OF assms(1) this, of rng1 isLoop rng2]
    AudioProcessor_reproducible [OF assms, of rng1 isLoop rng2]
  show ?thesis by (rule conjI)
qed

theorem variations_reproducible_except_reverb_witness:
  "wf_buffer \<lparr>buf_length = 1, sampleRate = 8000, channelData = [[Fin 1]]\<rparr> \<and>
   (\<exists>vs1 vs2 r1 r2.
      generateVariations (constant_rng 0)
        (Some \<lparr>buf_length = 1, sampleRate = 8000, channelData = [[Fin 1]]\<rparr>) 0 False =
        Inr (vs1, r1) \<and>
      generateVariations (constant_rng (1 / 2))
        (Some \<lparr>buf_length = 1, sampleRate = 8000, channelData = [[Fin 1]]\<rparr>) 0 False =
        Inr (vs2, r2) \<and>
      take 6 vs1 = take 6 vs2 \<and> vs1 ! 7 = vs2 ! 7)"
proof -
  let ?b = "\<lparr>buf_length = 1, sampleRate = 8000, channelData = [[Fin 1]]\<rparr>"
  have wf: "wf_buffer ?b" by (simp add: wf_buffer_def)
  have sr: "20 \<le> sampleRate ?b" by simp
  show ?thesis
    using wf variations_reproducible_except_reverb
      [OF wf sr, of "constant_rng 0" False "constant_rng (1 / 2)"]
    by blast
qed

end
